theory Spec2Isabelle
  imports Complex_Main "HOL-Library.Word"
begin

section \<open>Dependency pinning score of a GitHub repository\<close>

text \<open>
  A shallow embedding of the TypeScript module that fetches \<^verbatim>\<open>package.json\<close> through the
  GitHub contents API and computes the fraction of declared dependencies whose version
  specifier is pinned. The module's functions are \<^verbatim>\<open>get_axios_params\<close>,
  \<^verbatim>\<open>isVersionPinned\<close>, \<^verbatim>\<open>calculatePinningScore\<close>,
  \<^verbatim>\<open>_getDependencyPinningFractionFromPackageJson\<close> and
  \<^verbatim>\<open>getDependencyPinningFraction\<close>.
\<close>

subsection \<open>Strings\<close>

text \<open>
  A JavaScript string is a sequence of UTF-16 code units. \<open>js\<close> turns an ASCII literal
  into such a sequence.
\<close>

type_synonym code_unit = "16 word"

type_synonym jsstring = "code_unit list"

definition chr :: "char \<Rightarrow> code_unit" where
  "chr c = of_char c"

definition js :: "string \<Rightarrow> jsstring" where
  "js cs = map of_char cs"

text \<open>
  \<^verbatim>\<open>String.prototype.trim\<close> strips the code units of the grammar productions WhiteSpace and
  LineTerminator from both ends: TAB, LF, VT, FF, CR, SP, NBSP, U+1680, U+2000 to U+200A,
  LS, PS, U+202F, U+205F, U+3000 and the byte order mark U+FEFF.
\<close>

definition is_white_space :: "code_unit \<Rightarrow> bool" where
  "is_white_space c \<longleftrightarrow>
     c \<in> {0x0009, 0x000A, 0x000B, 0x000C, 0x000D, 0x0020, 0x00A0, 0x1680,
          0x2028, 0x2029, 0x202F, 0x205F, 0x3000, 0xFEFF}
     \<or> (0x2000 \<le> c \<and> c \<le> 0x200A)"

definition trim :: "jsstring \<Rightarrow> jsstring" where
  "trim s = rev (dropWhile is_white_space (rev (dropWhile is_white_space s)))"

subsection \<open>Regular expressions\<close>

text \<open>
  The fragment of the ECMAScript pattern language that the module's one regular expression
  uses: the assertions \<^verbatim>\<open>^\<close> and \<^verbatim>\<open>$\<close> (no \<^verbatim>\<open>m\<close> flag, so they hold at the
  two ends of the input only), a literal or escaped character, the class \<^verbatim>\<open>\d\<close>
  (the ten ASCII digits), concatenation, \<^verbatim>\<open>|\<close>, \<^verbatim>\<open>?\<close> and \<^verbatim>\<open>+\<close>. Groups capture,
  which \<^verbatim>\<open>test\<close> does not observe.
\<close>

datatype pattern =
    Bol
  | Eol
  | Chr code_unit
  | Digit
  | Seq pattern pattern
  | Alt pattern pattern
  | Opt pattern
  | Plus pattern

definition is_digit :: "code_unit \<Rightarrow> bool" where
  "is_digit c \<longleftrightarrow> 0x30 \<le> c \<and> c \<le> 0x39"

text \<open>
  The backtracking matcher: \<open>rmatch p s i\<close> lists, in the order in which backtracking
  tries them, the end indices of the matches of \<open>p\<close> in \<open>s\<close> that start at index \<open>i\<close>.
  The quantifiers are greedy. A further iteration of \<^verbatim>\<open>+\<close> is tried only after an
  iteration that consumed input, as the empty check of the ECMAScript RepeatMatcher has it.
\<close>

function (sequential) rmatch :: "pattern \<Rightarrow> jsstring \<Rightarrow> nat \<Rightarrow> nat list" where
  "rmatch Bol s i = (if i = 0 then [i] else [])"
| "rmatch Eol s i = (if i = length s then [i] else [])"
| "rmatch (Chr c) s i = (if i < length s \<and> s ! i = c then [Suc i] else [])"
| "rmatch Digit s i = (if i < length s \<and> is_digit (s ! i) then [Suc i] else [])"
| "rmatch (Seq a b) s i = concat (map (rmatch b s) (rmatch a s i))"
| "rmatch (Alt a b) s i = rmatch a s i @ rmatch b s i"
| "rmatch (Opt a) s i = rmatch a s i @ [i]"
| "rmatch (Plus a) s i =
     concat (map (\<lambda>j. (if i < j \<and> j \<le> length s then rmatch (Plus a) s j else []) @ [j])
                 (rmatch a s i))"
  by pat_completeness auto
termination
  by (relation "measures [\<lambda>(p, s, i). size p, \<lambda>(p, s, i). length s - i]") auto

declare rmatch.simps(8) [simp del]

text \<open>
  \<^verbatim>\<open>RegExp.prototype.test\<close> of a pattern without the \<^verbatim>\<open>g\<close> and \<^verbatim>\<open>y\<close> flags: the
  matcher is tried at every start index from 0 to the length of the input.
\<close>

definition regexp_test :: "pattern \<Rightarrow> jsstring \<Rightarrow> bool" where
  "regexp_test p s = list_ex (\<lambda>i. rmatch p s i \<noteq> []) [0..<Suc (length s)]"

subsection \<open>The pinning classifier\<close>

text \<open>
  The literal \<^verbatim>\<open>/^(\^|~)?\d+\.\d+(\.\d+|\.\*|\.x)?$/\<close>. The terms of an alternative
  associate to the left and the alternatives of a disjunction to the right, as in the
  ECMAScript grammar.
\<close>

definition PINNED_VERSION_REGEX :: pattern where
  "PINNED_VERSION_REGEX =
     Seq (Seq (Seq (Seq (Seq (Seq
       Bol
       (Opt (Alt (Chr (chr CHR ''^'')) (Chr (chr CHR ''~'')))))
       (Plus Digit))
       (Chr (chr CHR ''.'')))
       (Plus Digit))
       (Opt (Alt (Seq (Chr (chr CHR ''.'')) (Plus Digit))
            (Alt (Seq (Chr (chr CHR ''.'')) (Chr (chr CHR ''*'')))
                 (Seq (Chr (chr CHR ''.'')) (Chr (chr CHR ''x'')))))))
       Eol"

definition isVersionPinned :: "jsstring \<Rightarrow> bool" where
  "isVersionPinned version = regexp_test PINNED_VERSION_REGEX (trim version)"

subsection \<open>Values, exceptions and the log\<close>

text \<open>
  The values the module handles at run time: \<^verbatim>\<open>undefined\<close> and the values that
  \<^verbatim>\<open>JSON.parse\<close> and the HTTP client produce. The properties of an object are an
  association list in insertion order.
\<close>

datatype jsnum = Finite real | PosInfinity | NegInfinity | NaN

datatype jsval =
    Undefined
  | Null
  | Bool bool
  | Num jsnum
  | Str jsstring
  | Arr "jsval list"
  | Obj "(jsstring \<times> jsval) list"

type_synonym props = "(jsstring \<times> jsval) list"

text \<open>ToBoolean: the test of an \<^verbatim>\<open>if\<close> statement.\<close>

fun truthy :: "jsval \<Rightarrow> bool" where
  "truthy Undefined = False"
| "truthy Null = False"
| "truthy (Bool b) = b"
| "truthy (Num (Finite r)) = (r \<noteq> 0)"
| "truthy (Num NaN) = False"
| "truthy (Num PosInfinity) = True"
| "truthy (Num NegInfinity) = True"
| "truthy (Str s) = (s \<noteq> [])"
| "truthy (Arr xs) = True"
| "truthy (Obj ps) = True"

text \<open>
  Anything can be thrown, and a \<^verbatim>\<open>catch (error: any)\<close> receives it as it is: an
  \<^verbatim>\<open>Error\<close> object (of whatever subclass) with its message, or any other value,
  \<^verbatim>\<open>undefined\<close> and \<^verbatim>\<open>null\<close> among them. The engine throws a \<^verbatim>\<open>TypeError\<close>, which
  is an \<^verbatim>\<open>Error\<close> object, when a property of \<^verbatim>\<open>undefined\<close> or \<^verbatim>\<open>null\<close> is read and
  when a value that is not a function is called; the text of its message is the engine's.
\<close>

datatype thrown = ErrorObject jsstring | Value jsval

datatype fault =
    ReadOfNullish jsval jsstring
  | NotAFunction jsval jsstring

text \<open>
  The logger is a side channel: \<^verbatim>\<open>logger.debug(message, {owner, repo})\<close> and
  \<^verbatim>\<open>logger.error(message)\<close> or \<^verbatim>\<open>logger.error(message, detail)\<close> append a record
  and return. The detail is whatever value the caller read from \<^verbatim>\<open>error.message\<close>.
\<close>

datatype log_entry =
    LogDebug jsstring jsstring jsstring
  | LogError jsstring "jsval option"

type_synonym log = "log_entry list"

text \<open>
  What the module imports and calls but does not define: the URL parser of
  \<^verbatim>\<open>../url\<close>, \<^verbatim>\<open>axios.get\<close> (given the URL and the headers, it yields the
  \<^verbatim>\<open>data\<close> of the response or throws), the decoding
  \<^verbatim>\<open>Buffer.from(content, "base64").toString("utf-8")\<close>, \<^verbatim>\<open>JSON.parse\<close>, and
  the engine's \<^verbatim>\<open>TypeError\<close> messages.
\<close>

record env =
  parseGitHubUrl :: "jsstring \<Rightarrow> thrown + jsstring \<times> jsstring"
  axios_get :: "jsstring \<Rightarrow> (jsstring \<times> jsstring) list \<Rightarrow> thrown + jsval"
  base64_to_utf8 :: "jsval \<Rightarrow> thrown + jsstring"
  JSON_parse :: "jsstring \<Rightarrow> thrown + jsval"
  type_error_message :: "fault \<Rightarrow> jsstring"

definition type_error :: "env \<Rightarrow> fault \<Rightarrow> thrown" where
  "type_error env f = ErrorObject (type_error_message env f)"

subsection \<open>Objects\<close>

text \<open>
  An array index is a canonical numeric string of value at most \<open>2\<^sup>3\<^sup>2 - 2\<close>. The own keys
  of an object are enumerated with the array indices first, in ascending numeric order,
  then the other strings in insertion order.
\<close>

definition digits_value :: "jsstring \<Rightarrow> nat" where
  "digits_value k = foldl (\<lambda>n c. 10 * n + unat (c - 0x30)) 0 k"

definition is_array_index :: "jsstring \<Rightarrow> bool" where
  "is_array_index k \<longleftrightarrow>
     k \<noteq> [] \<and> list_all is_digit k \<and> (length k = 1 \<or> hd k \<noteq> 0x30) \<and>
     digits_value k < 4294967295"

definition own_keys :: "props \<Rightarrow> jsstring list" where
  "own_keys ps =
     (let ks = map fst ps
      in sort_key digits_value (filter is_array_index ks) @
         filter (\<lambda>k. \<not> is_array_index k) ks)"

definition prop_get :: "props \<Rightarrow> jsstring \<Rightarrow> jsval" where
  "prop_get ps k = (case map_of ps k of None \<Rightarrow> Undefined | Some v \<Rightarrow> v)"

text \<open>CreateDataProperty: an existing key keeps its place and takes the new value.\<close>

fun prop_put :: "props \<Rightarrow> jsstring \<Rightarrow> jsval \<Rightarrow> props" where
  "prop_put [] k v = [(k, v)]"
| "prop_put ((k', v') # ps) k v =
     (if k' = k then (k, v) # ps else (k', v') # prop_put ps k v)"

text \<open>
  Reading the property \<open>p\<close> of a value, for the names the module reads
  (\<^verbatim>\<open>content\<close>, the four dependency categories and \<^verbatim>\<open>message\<close>), none of which
  the prototype of a JSON value or an exotic object provides.
\<close>

fun get_property :: "env \<Rightarrow> jsval \<Rightarrow> jsstring \<Rightarrow> thrown + jsval" where
  "get_property env Undefined p = Inl (type_error env (ReadOfNullish Undefined p))"
| "get_property env Null p = Inl (type_error env (ReadOfNullish Null p))"
| "get_property env (Obj ps) p = Inr (prop_get ps p)"
| "get_property env v p = Inr Undefined"

text \<open>
  The expression \<^verbatim>\<open>error.message\<close> of the two \<^verbatim>\<open>catch\<close> handlers: the message of an
  \<^verbatim>\<open>Error\<close> object, the property of any other value, and a \<^verbatim>\<open>TypeError\<close> of its
  own when the caught value is \<^verbatim>\<open>undefined\<close> or \<^verbatim>\<open>null\<close>.
\<close>

fun error_message :: "env \<Rightarrow> thrown \<Rightarrow> thrown + jsval" where
  "error_message env (ErrorObject m) = Inr (Str m)"
| "error_message env (Value v) = get_property env v (js ''message'')"

text \<open>The decimal numeral of an index, as ToString of a number gives it.\<close>

fun decimal :: "nat \<Rightarrow> jsstring" where
  "decimal n =
     (if n < 10 then [of_nat (48 + n)] else decimal (n div 10) @ [of_nat (48 + n mod 10)])"

declare decimal.simps [simp del]

definition index_props :: "jsval list \<Rightarrow> props" where
  "index_props xs = zip (map decimal [0..<length xs]) xs"

text \<open>
  The own enumerable properties that an object spread copies, in the order of enumeration:
  those of an object, the elements of an array and the code units of a string under their
  indices, and nothing for \<^verbatim>\<open>undefined\<close>, \<^verbatim>\<open>null\<close>, a boolean or a number.
\<close>

fun own_enumerable_props :: "jsval \<Rightarrow> props" where
  "own_enumerable_props (Obj ps) = map (\<lambda>k. (k, prop_get ps k)) (own_keys ps)"
| "own_enumerable_props (Arr xs) = index_props xs"
| "own_enumerable_props (Str s) = index_props (map (\<lambda>c. Str [c]) s)"
| "own_enumerable_props v = []"

definition spread :: "props \<Rightarrow> jsval \<Rightarrow> props" where
  "spread target src = fold (\<lambda>(k, v) t. prop_put t k v) (own_enumerable_props src) target"

subsection \<open>The module\<close>

definition get_axios_params ::
  "env \<Rightarrow> jsstring \<Rightarrow> jsstring \<Rightarrow> log \<Rightarrow>
     (thrown + jsstring \<times> jsstring \<times> (jsstring \<times> jsstring) list) \<times> log" where
  "get_axios_params env url token lg =
     (case parseGitHubUrl env url of
        Inl e \<Rightarrow> (Inl e, lg)
      | Inr (owner, repo) \<Rightarrow>
          (let headers =
                 [(js ''Authorization'', js ''token '' @ token),
                  (js ''Accept'', js ''application/vnd.github.v3+json'')]
           in (Inr (owner, repo, headers),
               lg @ [LogDebug (js ''Generated axios parameters'') owner repo])))"

text \<open>
  The call \<^verbatim>\<open>isVersionPinned(version)\<close> on a value read from the parsed manifest: the
  declared type is \<^verbatim>\<open>string\<close>, and on any other value \<^verbatim>\<open>version.trim()\<close> throws.
\<close>

fun isVersionPinned_call :: "env \<Rightarrow> jsval \<Rightarrow> thrown + bool" where
  "isVersionPinned_call env (Str version) = Inr (isVersionPinned version)"
| "isVersionPinned_call env Undefined = Inl (type_error env (ReadOfNullish Undefined (js ''trim'')))"
| "isVersionPinned_call env Null = Inl (type_error env (ReadOfNullish Null (js ''trim'')))"
| "isVersionPinned_call env v = Inl (type_error env (NotAFunction v (js ''trim'')))"

text \<open>The \<^verbatim>\<open>forEach\<close> loop over the dependency names, with its counter.\<close>

fun forEach_dep :: "env \<Rightarrow> props \<Rightarrow> jsstring list \<Rightarrow> nat \<Rightarrow> thrown + nat" where
  "forEach_dep env dependencies [] pinnedCount = Inr pinnedCount"
| "forEach_dep env dependencies (dep # rest) pinnedCount =
     (case isVersionPinned_call env (prop_get dependencies dep) of
        Inl e \<Rightarrow> Inl e
      | Inr pinned \<Rightarrow>
          forEach_dep env dependencies rest (if pinned then pinnedCount + 1 else pinnedCount))"

text \<open>
  The division \<^verbatim>\<open>pinnedCount / total\<close> is that of IEEE 754 binary64, rounding to nearest
  with ties to even. Both operands are counts, exact as doubles since an array has fewer
  than \<open>2\<^sup>3\<^sup>2\<close> elements, and \<open>total\<close> is not zero where the division is reached. The
  quotient \<open>k / n\<close> is scaled by the power of two \<open>2\<^sup>s\<close> that brings it into
  \<open>[2\<^sup>5\<^sup>2, 2\<^sup>5\<^sup>3)\<close>, rounded there to an integer, the significand of 53 bits, and scaled
  back. A number is the real value of the double.
\<close>

function scale :: "nat \<Rightarrow> nat \<Rightarrow> nat \<Rightarrow> nat" where
  "scale k n s = (if k = 0 \<or> 2 ^ 52 * n \<le> k * 2 ^ s then s else scale k n (Suc s))"
  by pat_completeness auto
termination
proof (relation "measure (\<lambda>(k, n, s). 2 ^ 52 * n - k * 2 ^ s)")
  show "wf (measure (\<lambda>(k, n, s). 2 ^ 52 * n - k * 2 ^ s))" by simp
next
  fix k n s :: nat
  assume a: "\<not> (k = 0 \<or> 2 ^ 52 * n \<le> k * 2 ^ s)"
  then have "0 < k * 2 ^ s" and "k * 2 ^ s < 2 ^ 52 * n" by simp_all
  moreover have "k * 2 ^ Suc s = 2 * (k * 2 ^ s)" by simp
  ultimately have "2 ^ 52 * n - k * 2 ^ Suc s < 2 ^ 52 * n - k * 2 ^ s" by linarith
  then show "((k, n, Suc s), (k, n, s)) \<in> measure (\<lambda>(k, n, s). 2 ^ 52 * n - k * 2 ^ s)"
    by simp
qed

declare scale.simps [simp del]

definition round_half_even :: "nat \<Rightarrow> nat \<Rightarrow> nat" where
  "round_half_even a n =
     (let d = a div n; r = a mod n
      in if 2 * r < n then d
         else if n < 2 * r then d + 1
         else if even d then d else d + 1)"

definition double_div :: "nat \<Rightarrow> nat \<Rightarrow> real" where
  "double_div k n =
     (let s = scale k n 0
      in real (round_half_even (k * 2 ^ s) n) / 2 ^ s)"

definition calculatePinningScore :: "env \<Rightarrow> props \<Rightarrow> thrown + real" where
  "calculatePinningScore env dependencies =
     (let dependencyNames = own_keys dependencies;
          total = length dependencyNames
      in if total = 0 then Inr 1.0
         else (case forEach_dep env dependencies dependencyNames 0 of
                 Inl e \<Rightarrow> Inl e
               | Inr pinnedCount \<Rightarrow> Inr (double_div pinnedCount total)))"

text \<open>The object literal that spreads the four dependency categories of the manifest.\<close>

definition allDependencies :: "env \<Rightarrow> jsval \<Rightarrow> thrown + props" where
  "allDependencies env packageJson =
     (case get_property env packageJson (js ''dependencies'') of
        Inl e \<Rightarrow> Inl e
      | Inr d1 \<Rightarrow>
     (case get_property env packageJson (js ''devDependencies'') of
        Inl e \<Rightarrow> Inl e
      | Inr d2 \<Rightarrow>
     (case get_property env packageJson (js ''peerDependencies'') of
        Inl e \<Rightarrow> Inl e
      | Inr d3 \<Rightarrow>
     (case get_property env packageJson (js ''optionalDependencies'') of
        Inl e \<Rightarrow> Inl e
      | Inr d4 \<Rightarrow> Inr (spread (spread (spread (spread [] d1) d2) d3) d4)))))"

definition packageJsonUrl :: "jsstring \<Rightarrow> jsstring \<Rightarrow> jsstring" where
  "packageJsonUrl owner repo =
     js ''https://api.github.com/repos/'' @ owner @ js ''/'' @ repo @
     js ''/contents/package.json''"

definition content_not_found :: "jsstring \<Rightarrow> jsstring \<Rightarrow> log_entry" where
  "content_not_found owner repo =
     LogError (js ''package.json content not found for '' @ owner @ js ''/'' @ repo @ js ''.'')
       None"

definition failed_to_fetch :: "jsstring \<Rightarrow> jsstring \<Rightarrow> jsval \<Rightarrow> log_entry" where
  "failed_to_fetch owner repo detail =
     LogError (js ''Failed to fetch package.json for '' @ owner @ js ''/'' @ repo @ js '':'')
       (Some detail)"

text \<open>
  The \<^verbatim>\<open>try\<close> block of \<^verbatim>\<open>_getDependencyPinningFractionFromPackageJson\<close>: \<open>Inl\<close> is
  a throw, \<open>Inr None\<close> the return of \<^verbatim>\<open>null\<close>.
\<close>

definition fetch_try ::
  "env \<Rightarrow> jsstring \<Rightarrow> jsstring \<Rightarrow> (jsstring \<times> jsstring) list \<Rightarrow> log \<Rightarrow>
     (thrown + real option) \<times> log" where
  "fetch_try env owner repo headers lg =
     (case axios_get env (packageJsonUrl owner repo) headers of
        Inl e \<Rightarrow> (Inl e, lg)
      | Inr data \<Rightarrow>
     (case get_property env data (js ''content'') of
        Inl e \<Rightarrow> (Inl e, lg)
      | Inr content \<Rightarrow>
          if truthy content then
            (case base64_to_utf8 env content of
               Inl e \<Rightarrow> (Inl e, lg)
             | Inr packageContent \<Rightarrow>
            (case JSON_parse env packageContent of
               Inl e \<Rightarrow> (Inl e, lg)
             | Inr packageJson \<Rightarrow>
            (case allDependencies env packageJson of
               Inl e \<Rightarrow> (Inl e, lg)
             | Inr deps \<Rightarrow>
            (case calculatePinningScore env deps of
               Inl e \<Rightarrow> (Inl e, lg)
             | Inr pinningScore \<Rightarrow> (Inr (Some pinningScore), lg)))))
          else (Inr None, lg @ [content_not_found owner repo])))"

text \<open>
  \<^verbatim>\<open>_getDependencyPinningFractionFromPackageJson\<close> (a name cannot start with an
  underscore here): the \<^verbatim>\<open>try\<close> block and its \<^verbatim>\<open>catch\<close>. The handler evaluates
  \<^verbatim>\<open>error.message\<close> before it calls the logger; when that read throws, nothing is
  logged and the \<^verbatim>\<open>TypeError\<close> leaves the function.
\<close>

definition getDependencyPinningFractionFromPackageJson ::
  "env \<Rightarrow> jsstring \<Rightarrow> jsstring \<Rightarrow> (jsstring \<times> jsstring) list \<Rightarrow> log \<Rightarrow>
     (thrown + real option) \<times> log" where
  "getDependencyPinningFractionFromPackageJson env owner repo headers lg =
     (case fetch_try env owner repo headers lg of
        (Inl error, lg') \<Rightarrow>
          (case error_message env error of
             Inl e \<Rightarrow> (Inl e, lg')
           | Inr detail \<Rightarrow> (Inr None, lg' @ [failed_to_fetch owner repo detail]))
      | (Inr r, lg') \<Rightarrow> (Inr r, lg'))"

definition error_processing :: "jsstring \<Rightarrow> jsval \<Rightarrow> log_entry" where
  "error_processing url detail =
     LogError (js ''Error processing '' @ url @ js '':'') (Some detail)"

definition getDependencyPinningFraction ::
  "env \<Rightarrow> jsstring \<Rightarrow> jsstring \<Rightarrow> log \<Rightarrow> (thrown + real option) \<times> log" where
  "getDependencyPinningFraction env url token lg =
     (case get_axios_params env url token lg of
        (Inl error, lg') \<Rightarrow>
          (case error_message env error of
             Inl e \<Rightarrow> (Inl e, lg')
           | Inr detail \<Rightarrow> (Inr None, lg' @ [error_processing url detail]))
      | (Inr (owner, repo, headers), lg') \<Rightarrow>
          (case getDependencyPinningFractionFromPackageJson env owner repo headers lg' of
             (Inl error, lg'') \<Rightarrow>
               (case error_message env error of
                  Inl e \<Rightarrow> (Inl e, lg'')
                | Inr detail \<Rightarrow> (Inr None, lg'' @ [error_processing url detail]))
           | (Inr r, lg'') \<Rightarrow> (Inr r, lg'')))"

section \<open>The specification's reading of the classifier\<close>

text \<open>
  The pattern as the specification words it: an optional leading \<^verbatim>\<open>^\<close> or \<^verbatim>\<open>~\<close>, one
  or more digits, a dot, one or more digits, optionally followed by a dot and one or more
  digits, or by \<^verbatim>\<open>.*\<close>, or by \<^verbatim>\<open>.x\<close>.
\<close>

definition one_or_more_digits :: "jsstring \<Rightarrow> bool" where
  "one_or_more_digits d \<longleftrightarrow> d \<noteq> [] \<and> list_all is_digit d"

definition spec_pinned_pattern :: "jsstring \<Rightarrow> bool" where
  "spec_pinned_pattern t \<longleftrightarrow>
     (\<exists>p d1 d2 r.
        t = p @ d1 @ js ''.'' @ d2 @ r \<and>
        (p = [] \<or> p = js ''^'' \<or> p = js ''~'') \<and>
        one_or_more_digits d1 \<and>
        one_or_more_digits d2 \<and>
        (r = [] \<or> (\<exists>d3. r = js ''.'' @ d3 \<and> one_or_more_digits d3)
               \<or> r = js ''.*'' \<or> r = js ''.x''))"

subsection \<open>The language of a pattern without assertions\<close>

definition conc :: "jsstring set \<Rightarrow> jsstring set \<Rightarrow> jsstring set" where
  "conc A B = {u @ v | u v. u \<in> A \<and> v \<in> B}"

inductive_set plus_lang :: "jsstring set \<Rightarrow> jsstring set" for A :: "jsstring set" where
  once: "w \<in> A \<Longrightarrow> w \<in> plus_lang A"
| again: "w \<in> A \<Longrightarrow> v \<in> plus_lang A \<Longrightarrow> w @ v \<in> plus_lang A"

fun lang :: "pattern \<Rightarrow> jsstring set" where
  "lang Bol = {[]}"
| "lang Eol = {[]}"
| "lang (Chr c) = {[c]}"
| "lang Digit = {[c] | c. is_digit c}"
| "lang (Seq a b) = conc (lang a) (lang b)"
| "lang (Alt a b) = lang a \<union> lang b"
| "lang (Opt a) = insert [] (lang a)"
| "lang (Plus a) = plus_lang (lang a)"

fun anchor_free :: "pattern \<Rightarrow> bool" where
  "anchor_free Bol = False"
| "anchor_free Eol = False"
| "anchor_free (Chr c) = True"
| "anchor_free Digit = True"
| "anchor_free (Seq a b) = (anchor_free a \<and> anchor_free b)"
| "anchor_free (Alt a b) = (anchor_free a \<and> anchor_free b)"
| "anchor_free (Opt a) = anchor_free a"
| "anchor_free (Plus a) = anchor_free a"

text \<open>\<open>reaches r s i j\<close>: a word of the language of \<open>r\<close> lies in \<open>s\<close> from \<open>i\<close> to \<open>j\<close>.\<close>

definition reaches :: "pattern \<Rightarrow> jsstring \<Rightarrow> nat \<Rightarrow> nat \<Rightarrow> bool" where
  "reaches r s i j \<longleftrightarrow> (\<exists>w t. w \<in> lang r \<and> drop i s = w @ t \<and> j = i + length w)"

text \<open>The regular expression between its two assertions.\<close>

definition version_body :: pattern where
  "version_body =
     Seq (Seq (Seq (Seq
       (Opt (Alt (Chr (chr CHR ''^'')) (Chr (chr CHR ''~''))))
       (Plus Digit))
       (Chr (chr CHR ''.'')))
       (Plus Digit))
       (Opt (Alt (Seq (Chr (chr CHR ''.'')) (Plus Digit))
            (Alt (Seq (Chr (chr CHR ''.'')) (Chr (chr CHR ''*'')))
                 (Seq (Chr (chr CHR ''.'')) (Chr (chr CHR ''x''))))))"

section \<open>Auxiliary notions for the statements\<close>

text \<open>
  A dependency map at its declared type \<^verbatim>\<open>{ [key: string]: string }\<close>: the object whose
  properties are the given names with their version strings.
\<close>

definition dependency_map :: "(jsstring \<times> jsstring) list \<Rightarrow> props" where
  "dependency_map m = map (\<lambda>(name, version). (name, Str version)) m"

text \<open>The versions that the loop counts.\<close>

definition pinned_value :: "jsval \<Rightarrow> bool" where
  "pinned_value v = (case v of Str version \<Rightarrow> isVersionPinned version | _ \<Rightarrow> False)"

text \<open>
  The entries that a dependency category contributes to the merged map: its own properties,
  and none when the category is absent (\<^verbatim>\<open>undefined\<close>).
\<close>

fun category_entries :: "jsval \<Rightarrow> (jsstring \<rightharpoonup> jsval)" where
  "category_entries (Obj ps) = map_of ps"
| "category_entries (Arr xs) = map_of (index_props xs)"
| "category_entries (Str s) = map_of (index_props (map (\<lambda>c. Str [c]) s))"
| "category_entries v = Map.empty"

text \<open>
  Whether a response body carries the field \<open>p\<close>, for a field name such as
  \<^verbatim>\<open>content\<close> that is neither \<^verbatim>\<open>length\<close> nor an index: the own properties of an
  object; a primitive value or an array has no such field.
\<close>

fun has_field :: "jsval \<Rightarrow> jsstring \<Rightarrow> bool" where
  "has_field (Obj ps) p = (p \<in> set (map fst ps))"
| "has_field v p = False"

text \<open>
  A concrete environment for running the module: the URL parser knows one repository, and
  the HTTP call, the decoding and the parsing give what they are told to give.
\<close>

definition fixture_env :: "(thrown + jsval) \<Rightarrow> (thrown + jsstring) \<Rightarrow> (thrown + jsval) \<Rightarrow> env" where
  "fixture_env response decoded parsed =
     \<lparr> parseGitHubUrl = (\<lambda>url. if url = js ''https://github.com/o/r''
                                then Inr (js ''o'', js ''r'')
                                else Inl (ErrorObject (js ''Invalid GitHub URL''))),
       axios_get = (\<lambda>url headers. response),
       base64_to_utf8 = (\<lambda>content. decoded),
       JSON_parse = (\<lambda>text. parsed),
       type_error_message = (\<lambda>f. js ''TypeError'') \<rparr>"

definition example_manifest :: jsval where
  "example_manifest =
     Obj [(js ''name'', Str (js ''demo'')),
          (js ''dependencies'', Obj [(js ''lodash'', Str (js ''^4.17.21''))]),
          (js ''devDependencies'', Obj [(js ''jest'', Str (js ''latest''))])]"

definition example_env :: env where
  "example_env =
     fixture_env (Inr (Obj [(js ''content'', Str (js ''e30=''))])) (Inr (js ''{}''))
       (Inr example_manifest)"

text \<open>
  The whitespace-trimmed form \<open>t\<close> of a string \<open>s\<close>, as the specification has it: \<open>s\<close>
  is \<open>t\<close> between two runs of white space, and \<open>t\<close> neither begins nor ends with white
  space.
\<close>

definition spec_trimmed :: "jsstring \<Rightarrow> jsstring \<Rightarrow> bool" where
  "spec_trimmed s t \<longleftrightarrow>
     (\<exists>l r. s = l @ t @ r \<and> list_all is_white_space l \<and> list_all is_white_space r \<and>
        (t = [] \<or> (\<not> is_white_space (hd t) \<and> \<not> is_white_space (last t))))"

text \<open>
  The code units that \<^verbatim>\<open>trim\<close> strips, one by one, for the statement about the
  classifier.
\<close>

definition white_space_units :: "code_unit list" where
  "white_space_units =
     [0x0009, 0x000A, 0x000B, 0x000C, 0x000D, 0x0020, 0x00A0, 0x1680,
      0x2000, 0x2001, 0x2002, 0x2003, 0x2004, 0x2005, 0x2006, 0x2007, 0x2008, 0x2009, 0x200A,
      0x2028, 0x2029, 0x202F, 0x205F, 0x3000, 0xFEFF]"

text \<open>
  A double \<open>q\<close> is the quotient \<open>x\<close> correctly rounded, for \<open>0 \<le> x < 2\<^sup>5\<^sup>3\<close>: it is zero
  with \<open>x\<close>, or it has a significand \<open>M\<close> of 53 bits at the exponent \<open>-s\<close> and lies within
  half a unit in the last place of \<open>x\<close>, with an even significand when \<open>x\<close> is half-way
  between two doubles.
\<close>

definition correctly_rounded :: "real \<Rightarrow> real \<Rightarrow> bool" where
  "correctly_rounded x q \<longleftrightarrow>
     (x = 0 \<and> q = 0) \<or>
     (\<exists>(M::nat) (s::nat). 2 ^ 52 \<le> M \<and> M \<le> 2 ^ 53 \<and> q = real M / 2 ^ s \<and>
        (\<bar>q - x\<bar> * 2 ^ (s + 1) < 1 \<or> (\<bar>q - x\<bar> * 2 ^ (s + 1) = 1 \<and> even M)))"

text \<open>A thrown \<^verbatim>\<open>undefined\<close> or \<^verbatim>\<open>null\<close>, and a call that throws one.\<close>

fun nullish_thrown :: "thrown \<Rightarrow> bool" where
  "nullish_thrown (Value Undefined) = True"
| "nullish_thrown (Value Null) = True"
| "nullish_thrown e = False"




section \<open>The matcher computes the language\<close>

lemma drop_single:
  "(\<exists>t. drop i s = c # t) \<longleftrightarrow> i < length s \<and> s ! i = c"
proof
  assume "\<exists>t. drop i s = c # t"
  then obtain t where t: "drop i s = c # t" by blast
  have il: "i < length s"
  proof (rule ccontr)
    assume "\<not> i < length s"
    then have "drop i s = []" by simp
    with t show False by simp
  qed
  then have "drop i s = s ! i # drop (Suc i) s" by (simp add: Cons_nth_drop_Suc)
  with t have "s ! i = c" by simp
  with il show "i < length s \<and> s ! i = c" by simp
next
  assume a: "i < length s \<and> s ! i = c"
  then have "i < length s" by simp
  then have "drop i s = s ! i # drop (Suc i) s" by (simp add: Cons_nth_drop_Suc)
  with a have "drop i s = c # drop (Suc i) s" by simp
  then show "\<exists>t. drop i s = c # t" by blast
qed

lemma reaches_Chr: "reaches (Chr c) s i j \<longleftrightarrow> i < length s \<and> s ! i = c \<and> j = Suc i"
proof -
  have "reaches (Chr c) s i j \<longleftrightarrow> (\<exists>t. drop i s = c # t) \<and> j = Suc i"
    by (simp add: reaches_def)
  then show ?thesis by (simp only: drop_single) simp
qed

lemma reaches_Digit:
  "reaches Digit s i j \<longleftrightarrow> i < length s \<and> is_digit (s ! i) \<and> j = Suc i"
proof -
  have "reaches Digit s i j \<longleftrightarrow> (\<exists>c. is_digit c \<and> (\<exists>t. drop i s = c # t)) \<and> j = Suc i"
    by (auto simp: reaches_def)
  then show ?thesis by (simp only: drop_single) auto
qed

lemma rmatch_Chr: "j \<in> set (rmatch (Chr c) s i) \<longleftrightarrow> reaches (Chr c) s i j"
  by (simp only: reaches_Chr rmatch.simps) auto

lemma rmatch_Digit: "j \<in> set (rmatch Digit s i) \<longleftrightarrow> reaches Digit s i j"
  by (simp only: reaches_Digit rmatch.simps) auto

lemma reaches_bounds:
  assumes "reaches r s i j" "i \<le> length s"
  shows "i \<le> j" "j \<le> length s"
proof -
  from assms(1) obtain w t where w: "drop i s = w @ t" "j = i + length w"
    by (auto simp: reaches_def)
  show "i \<le> j" using w by simp
  have "length (drop i s) = length (w @ t)" using w(1) by (rule arg_cong)
  then have "length s - i = length w + length t" by simp
  then show "j \<le> length s" using w(2) assms(2) by linarith
qed

lemma reaches_Seq:
  "reaches (Seq a b) s i j \<longleftrightarrow> (\<exists>m. reaches a s i m \<and> reaches b s m j)"
proof
  assume "reaches (Seq a b) s i j"
  then obtain u v t where uv: "u \<in> lang a" "v \<in> lang b" "drop i s = (u @ v) @ t"
    "j = i + length (u @ v)"
    by (auto simp: reaches_def conc_def)
  have "drop (i + length u) s = drop (length u) (drop i s)" by (simp add: add.commute)
  also have "\<dots> = v @ t" using uv(3) by simp
  finally have "reaches b s (i + length u) j" using uv by (auto simp: reaches_def)
  moreover have "reaches a s i (i + length u)" using uv by (auto simp: reaches_def)
  ultimately show "\<exists>m. reaches a s i m \<and> reaches b s m j" by blast
next
  assume "\<exists>m. reaches a s i m \<and> reaches b s m j"
  then obtain m u t v t' where m: "u \<in> lang a" "drop i s = u @ t" "m = i + length u"
    "v \<in> lang b" "drop m s = v @ t'" "j = m + length v"
    by (auto simp: reaches_def)
  have "drop m s = drop (length u) (drop i s)" using m(3) by (simp add: add.commute)
  then have "t = v @ t'" using m by simp
  then have "drop i s = (u @ v) @ t'" using m by simp
  moreover have "u @ v \<in> lang (Seq a b)" using m by (auto simp: conc_def)
  moreover have "j = i + length (u @ v)" using m by simp
  ultimately show "reaches (Seq a b) s i j" unfolding reaches_def by blast
qed

lemma reaches_Alt: "reaches (Alt a b) s i j \<longleftrightarrow> reaches a s i j \<or> reaches b s i j"
  by (auto simp: reaches_def)

lemma reaches_Opt: "reaches (Opt a) s i j \<longleftrightarrow> reaches a s i j \<or> j = i"
  by (auto simp: reaches_def)

lemma reaches_Plus_once: "reaches a s i j \<Longrightarrow> reaches (Plus a) s i j"
  by (auto simp: reaches_def intro: plus_lang.once)

lemma reaches_Plus_again:
  assumes "reaches a s i m" "reaches (Plus a) s m j"
  shows "reaches (Plus a) s i j"
proof -
  from assms obtain u t v t' where m: "u \<in> lang a" "drop i s = u @ t" "m = i + length u"
    "v \<in> plus_lang (lang a)" "drop m s = v @ t'" "j = m + length v"
    by (auto simp: reaches_def)
  have "drop m s = drop (length u) (drop i s)" using m(3) by (simp add: add.commute)
  then have "t = v @ t'" using m by simp
  then have "drop i s = (u @ v) @ t'" using m by simp
  moreover have "u @ v \<in> plus_lang (lang a)" using m by (auto intro: plus_lang.again)
  moreover have "j = i + length (u @ v)" using m by simp
  ultimately show ?thesis unfolding reaches_def lang.simps by blast
qed

text \<open>One unfolding of the matcher at \<^verbatim>\<open>+\<close>.\<close>

lemma rmatch_Plus_mem:
  "j \<in> set (rmatch (Plus a) s i) \<longleftrightarrow>
     (\<exists>m \<in> set (rmatch a s i).
        j = m \<or> (i < m \<and> m \<le> length s \<and> j \<in> set (rmatch (Plus a) s m)))"
  by (subst rmatch.simps(8)) auto

lemma rmatch_Plus_sound:
  assumes IH: "\<And>i j. i \<le> length s \<Longrightarrow> j \<in> set (rmatch a s i) \<longleftrightarrow> reaches a s i j"
  shows "i \<le> length s \<Longrightarrow> j \<in> set (rmatch (Plus a) s i) \<Longrightarrow> reaches (Plus a) s i j"
proof (induction "length s - i" arbitrary: i rule: less_induct)
  case less
  from less.prems(2) obtain m where m: "m \<in> set (rmatch a s i)"
    "j = m \<or> (i < m \<and> m \<le> length s \<and> j \<in> set (rmatch (Plus a) s m))"
    using rmatch_Plus_mem [of j a s i] by blast
  from m(1) less.prems(1) have am: "reaches a s i m" by (simp add: IH)
  from m(2) show ?case
  proof
    assume "j = m"
    with am show ?thesis by (simp add: reaches_Plus_once)
  next
    assume b: "i < m \<and> m \<le> length s \<and> j \<in> set (rmatch (Plus a) s m)"
    then have "length s - m < length s - i" by linarith
    with b have "reaches (Plus a) s m j" by (simp add: less.hyps)
    with am show ?thesis by (rule reaches_Plus_again)
  qed
qed

lemma rmatch_Plus_complete:
  assumes IH: "\<And>i j. i \<le> length s \<Longrightarrow> j \<in> set (rmatch a s i) \<longleftrightarrow> reaches a s i j"
  shows "w \<in> plus_lang (lang a) \<Longrightarrow> i \<le> length s \<Longrightarrow> drop i s = w @ t \<Longrightarrow>
           i + length w \<in> set (rmatch (Plus a) s i)"
proof (induction w arbitrary: i t rule: plus_lang.induct)
  case (once w)
  then have "reaches a s i (i + length w)" unfolding reaches_def by blast
  with once have "i + length w \<in> set (rmatch a s i)" by (simp add: IH)
  then show ?case using rmatch_Plus_mem [of "i + length w" a s i] by blast
next
  case (again u v)
  show ?case
  proof (cases "u = []")
    case True
    with again.prems have "drop i s = v @ t" by simp
    with again.prems(1) have "i + length v \<in> set (rmatch (Plus a) s i)" by (rule again.IH)
    with True show ?thesis by simp
  next
    case False
    let ?m = "i + length u"
    from again.prems(2) have d: "drop i s = u @ (v @ t)" by simp
    then have ru: "reaches a s i ?m" using again.hyps(1) unfolding reaches_def by blast
    with again.prems(1) have mem: "?m \<in> set (rmatch a s i)" by (simp add: IH)
    from ru again.prems(1) have le: "?m \<le> length s" by (rule reaches_bounds)
    have "drop ?m s = drop (length u) (drop i s)" by (simp add: add.commute)
    with d have "drop ?m s = v @ t" by simp
    with le have "?m + length v \<in> set (rmatch (Plus a) s ?m)" by (rule again.IH)
    moreover have "i < ?m" using False by simp
    moreover have "i + length (u @ v) = ?m + length v" by simp
    ultimately show ?thesis using mem le rmatch_Plus_mem [of "i + length (u @ v)" a s i]
      by metis
  qed
qed

lemma rmatch_reaches:
  "anchor_free r \<Longrightarrow> i \<le> length s \<Longrightarrow> j \<in> set (rmatch r s i) \<longleftrightarrow> reaches r s i j"
proof (induction r arbitrary: i j)
  case Bol
  then show ?case by simp
next
  case Eol
  then show ?case by simp
next
  case (Chr c)
  show ?case by (rule rmatch_Chr)
next
  case Digit
  show ?case by (rule rmatch_Digit)
next
  case (Seq a b)
  have "j \<in> set (rmatch (Seq a b) s i) \<longleftrightarrow> (\<exists>m\<in>set (rmatch a s i). j \<in> set (rmatch b s m))"
    by simp
  also have "\<dots> \<longleftrightarrow> (\<exists>m. reaches a s i m \<and> reaches b s m j)"
  proof -
    have "\<And>m. m \<in> set (rmatch a s i) \<longleftrightarrow> reaches a s i m"
      using Seq.IH(1) Seq.prems by simp
    moreover have "\<And>m. reaches a s i m \<Longrightarrow> j \<in> set (rmatch b s m) \<longleftrightarrow> reaches b s m j"
      using Seq.IH(2) Seq.prems reaches_bounds(2) by simp
    ultimately show ?thesis by blast
  qed
  finally show ?case by (simp only: reaches_Seq)
next
  case (Alt a b)
  then show ?case by (simp add: reaches_Alt)
next
  case (Opt a)
  then show ?case by (auto simp: reaches_Opt)
next
  case (Plus a)
  have IH: "\<And>i j. i \<le> length s \<Longrightarrow> j \<in> set (rmatch a s i) \<longleftrightarrow> reaches a s i j"
    using Plus.IH Plus.prems(1) by simp
  show ?case
  proof
    assume "j \<in> set (rmatch (Plus a) s i)"
    with IH Plus.prems(2) show "reaches (Plus a) s i j" by (rule rmatch_Plus_sound)
  next
    assume "reaches (Plus a) s i j"
    then obtain w t where w: "w \<in> plus_lang (lang a)" "drop i s = w @ t" "j = i + length w"
      unfolding reaches_def lang.simps by blast
    from IH w(1) Plus.prems(2) w(2) have "i + length w \<in> set (rmatch (Plus a) s i)"
      by (rule rmatch_Plus_complete)
    with w(3) show "j \<in> set (rmatch (Plus a) s i)" by simp
  qed
qed

subsection \<open>The regular expression of the classifier\<close>

lemma concat_map_concat:
  "concat (map f (concat (map g xs))) = concat (map (\<lambda>x. concat (map f (g x))) xs)"
  by (induction xs) simp_all

lemma rmatch_Seq_assoc: "rmatch (Seq (Seq a b) c) s = rmatch (Seq a (Seq b c)) s"
proof
  fix i
  have "rmatch (Seq b c) s = (\<lambda>m. concat (map (rmatch c s) (rmatch b s m)))"
    by (rule ext) simp
  then show "rmatch (Seq (Seq a b) c) s i = rmatch (Seq a (Seq b c)) s i"
    by (simp add: concat_map_concat)
qed

lemma PINNED_anchored:
  "rmatch PINNED_VERSION_REGEX s = rmatch (Seq Bol (Seq version_body Eol)) s"
proof -
  have "rmatch (Seq version_body Eol) s = rmatch (Seq (Opt (Alt (Chr (chr CHR ''^'')) (Chr (chr CHR ''~''))))
       (Seq (Plus Digit) (Seq (Chr (chr CHR ''.'')) (Seq (Plus Digit)
       (Seq (Opt (Alt (Seq (Chr (chr CHR ''.'')) (Plus Digit))
            (Alt (Seq (Chr (chr CHR ''.'')) (Chr (chr CHR ''*'')))
                 (Seq (Chr (chr CHR ''.'')) (Chr (chr CHR ''x'')))))) Eol))))) s"
    unfolding version_body_def by (simp only: rmatch_Seq_assoc)
  then have "rmatch (Seq Bol (Seq version_body Eol)) s i = rmatch (Seq Bol (Seq (Opt (Alt (Chr (chr CHR ''^'')) (Chr (chr CHR ''~''))))
       (Seq (Plus Digit) (Seq (Chr (chr CHR ''.'')) (Seq (Plus Digit)
       (Seq (Opt (Alt (Seq (Chr (chr CHR ''.'')) (Plus Digit))
            (Alt (Seq (Chr (chr CHR ''.'')) (Chr (chr CHR ''*'')))
                 (Seq (Chr (chr CHR ''.'')) (Chr (chr CHR ''x'')))))) Eol)))))) s i" for i
    by (simp only: rmatch.simps(5))
  moreover have "rmatch PINNED_VERSION_REGEX s = rmatch (Seq Bol (Seq (Opt (Alt (Chr (chr CHR ''^'')) (Chr (chr CHR ''~''))))
       (Seq (Plus Digit) (Seq (Chr (chr CHR ''.'')) (Seq (Plus Digit)
       (Seq (Opt (Alt (Seq (Chr (chr CHR ''.'')) (Plus Digit))
            (Alt (Seq (Chr (chr CHR ''.'')) (Chr (chr CHR ''*'')))
                 (Seq (Chr (chr CHR ''.'')) (Chr (chr CHR ''x'')))))) Eol)))))) s"
    unfolding PINNED_VERSION_REGEX_def by (simp only: rmatch_Seq_assoc)
  ultimately show ?thesis by (simp add: fun_eq_iff del: rmatch.simps)
qed

lemma anchor_free_body: "anchor_free version_body"
  by (simp add: version_body_def)

lemma test_anchored:
  assumes "anchor_free r"
  shows "list_ex (\<lambda>i. rmatch (Seq Bol (Seq r Eol)) s i \<noteq> []) [0..<Suc (length s)] \<longleftrightarrow> s \<in> lang r"
proof -
  have "rmatch (Seq Bol (Seq r Eol)) s i \<noteq> [] \<longleftrightarrow> i = 0 \<and> length s \<in> set (rmatch r s 0)" for i
  proof -
    have "rmatch (Seq Bol (Seq r Eol)) s i \<noteq> [] \<longleftrightarrow> (\<exists>j. j \<in> set (rmatch (Seq Bol (Seq r Eol)) s i))"
      by (cases "rmatch (Seq Bol (Seq r Eol)) s i") auto
    also have "\<dots> \<longleftrightarrow> i = 0 \<and> length s \<in> set (rmatch r s 0)"
      by (auto split: if_splits)
    finally show ?thesis .
  qed
  then have "list_ex (\<lambda>i. rmatch (Seq Bol (Seq r Eol)) s i \<noteq> []) [0..<Suc (length s)]
      \<longleftrightarrow> length s \<in> set (rmatch r s 0)"
    by (auto simp: list_ex_iff simp del: rmatch.simps upt_Suc)
  also have "\<dots> \<longleftrightarrow> reaches r s 0 (length s)"
    using assms by (simp add: rmatch_reaches)
  also have "\<dots> \<longleftrightarrow> s \<in> lang r"
  proof
    assume "reaches r s 0 (length s)"
    then obtain w t where w: "w \<in> lang r" "s = w @ t" "length s = length w"
      by (auto simp: reaches_def)
    then have "t = []" by simp
    with w show "s \<in> lang r" by simp
  next
    assume "s \<in> lang r"
    then show "reaches r s 0 (length s)" by (auto simp: reaches_def)
  qed
  finally show ?thesis .
qed

lemma plus_digits: "plus_lang (lang Digit) = {d. one_or_more_digits d}"
proof (intro set_eqI iffI)
  fix d assume "d \<in> plus_lang (lang Digit)"
  then have "one_or_more_digits d"
    by (induction rule: plus_lang.induct) (auto simp: one_or_more_digits_def)
  then show "d \<in> {d. one_or_more_digits d}" by simp
next
  fix d assume "d \<in> {d. one_or_more_digits d}"
  then have "d \<noteq> []" "list_all is_digit d" by (simp_all add: one_or_more_digits_def)
  then show "d \<in> plus_lang (lang Digit)"
  proof (induction d)
    case Nil
    then show ?case by simp
  next
    case (Cons c d)
    then have c: "[c] \<in> lang Digit" by simp
    show ?case
    proof (cases "d = []")
      case True
      with c show ?thesis by (simp add: plus_lang.once)
    next
      case False
      with Cons have "d \<in> plus_lang (lang Digit)" by simp
      with c have "[c] @ d \<in> plus_lang (lang Digit)" by (rule plus_lang.again)
      then show ?thesis by simp
    qed
  qed
qed

lemma lang_Seq5:
  "w \<in> lang (Seq (Seq (Seq (Seq a b) (Chr c)) d) e) \<longleftrightarrow>
     (\<exists>p d1 d2 r. w = p @ d1 @ [c] @ d2 @ r \<and>
        p \<in> lang a \<and> d1 \<in> lang b \<and> d2 \<in> lang d \<and> r \<in> lang e)"
proof
  assume "w \<in> lang (Seq (Seq (Seq (Seq a b) (Chr c)) d) e)"
  then obtain p d1 d2 r where "w = (((p @ d1) @ [c]) @ d2) @ r"
    "p \<in> lang a" "d1 \<in> lang b" "d2 \<in> lang d" "r \<in> lang e"
    by (auto simp: conc_def)
  then show "\<exists>p d1 d2 r. w = p @ d1 @ [c] @ d2 @ r \<and>
        p \<in> lang a \<and> d1 \<in> lang b \<and> d2 \<in> lang d \<and> r \<in> lang e"
    by (intro exI [of _ p] exI [of _ d1] exI [of _ d2] exI [of _ r]) simp
next
  assume "\<exists>p d1 d2 r. w = p @ d1 @ [c] @ d2 @ r \<and>
        p \<in> lang a \<and> d1 \<in> lang b \<and> d2 \<in> lang d \<and> r \<in> lang e"
  then obtain p d1 d2 r where w: "w = (((p @ d1) @ [c]) @ d2) @ r"
    "p \<in> lang a" "d1 \<in> lang b" "d2 \<in> lang d" "r \<in> lang e"
    by auto
  have "p @ d1 \<in> lang (Seq a b)" using w by (auto simp: conc_def)
  then have "(p @ d1) @ [c] \<in> lang (Seq (Seq a b) (Chr c))" by (auto simp: conc_def)
  then have "((p @ d1) @ [c]) @ d2 \<in> lang (Seq (Seq (Seq a b) (Chr c)) d)"
    using w(4) unfolding lang.simps(5) [of _ d] conc_def by blast
  then have "(((p @ d1) @ [c]) @ d2) @ r \<in> lang (Seq (Seq (Seq (Seq a b) (Chr c)) d) e)"
    using w(5) unfolding lang.simps(5) [of _ e] conc_def by blast
  with w(1) show "w \<in> lang (Seq (Seq (Seq (Seq a b) (Chr c)) d) e)" by simp
qed

lemma js_one: "js [a] = [chr a]"
  by (simp add: js_def chr_def)

lemma js_two: "js [a, b] = [chr a, chr b]"
  by (simp add: js_def chr_def)

lemma lang_prefix:
  "p \<in> lang (Opt (Alt (Chr (chr CHR ''^'')) (Chr (chr CHR ''~'')))) \<longleftrightarrow>
     p = [] \<or> p = js ''^'' \<or> p = js ''~''"
  by (auto simp: js_one)

lemma lang_suffix:
  "r \<in> lang (Opt (Alt (Seq (Chr (chr CHR ''.'')) (Plus Digit))
            (Alt (Seq (Chr (chr CHR ''.'')) (Chr (chr CHR ''*'')))
                 (Seq (Chr (chr CHR ''.'')) (Chr (chr CHR ''x'')))))) \<longleftrightarrow>
     (r = [] \<or> (\<exists>d3. r = js ''.'' @ d3 \<and> one_or_more_digits d3)
            \<or> r = js ''.*'' \<or> r = js ''.x'')"
  unfolding lang.simps(3,5-) plus_digits by (auto simp: conc_def js_one js_two)

lemma lang_body: "s \<in> lang version_body \<longleftrightarrow> spec_pinned_pattern s"
  unfolding version_body_def spec_pinned_pattern_def lang_Seq5 lang_prefix lang_suffix
  unfolding lang.simps(8) plus_digits by (simp add: js_one)

lemma pinned_examples:
  "isVersionPinned (js ''2.3'')" "isVersionPinned (js ''^2.3.4'')"
  "isVersionPinned (js ''~2.3.x'')" "isVersionPinned (js ''2.3.*'')"
  by code_simp+

lemma unpinned_examples:
  "\<not> isVersionPinned (js ''*'')" "\<not> isVersionPinned (js ''latest'')"
  "\<not> isVersionPinned (js ''>=1.0.0'')" "\<not> isVersionPinned (js ''1'')"
  "\<not> isVersionPinned (js ''1.2.3-beta'')"
  by code_simp+

section \<open>Trimming\<close>

lemma digit_not_white_space: "is_digit c \<Longrightarrow> \<not> is_white_space c"
proof
  assume d: "is_digit c" and w: "is_white_space c"
  from d have "48 \<le> unat c" "unat c \<le> 57"
    by (simp_all add: is_digit_def word_le_nat_alt)
  moreover from w have "unat c \<in> {9, 10, 11, 12, 13, 32, 160, 5760, 8232, 8233, 8239, 8287, 12288, 65279}
      \<or> 8192 \<le> unat c"
    unfolding is_white_space_def by (auto simp: word_le_nat_alt)
  ultimately show False by auto
qed

lemma trim_decompose:
  "\<exists>l r. s = l @ trim s @ r \<and> list_all is_white_space l \<and> list_all is_white_space r"
proof -
  let ?u = "dropWhile is_white_space s"
  let ?l = "takeWhile is_white_space s"
  let ?r = "rev (takeWhile is_white_space (rev ?u))"
  have "?u = rev (rev ?u)" by simp
  also have "\<dots> = rev (takeWhile is_white_space (rev ?u) @ dropWhile is_white_space (rev ?u))"
    by simp
  also have "\<dots> = rev (dropWhile is_white_space (rev ?u)) @ ?r" by (rule rev_append)
  finally have "?u = trim s @ ?r" by (simp only: trim_def)
  moreover have "s = ?l @ ?u" by simp
  ultimately have "s = ?l @ trim s @ ?r" by simp
  moreover have "list_all is_white_space ?l"
    by (auto simp: list_all_iff dest: set_takeWhileD)
  moreover have "list_all is_white_space ?r"
    by (auto simp: list_all_iff dest: set_takeWhileD)
  ultimately show ?thesis by blast
qed

lemma trim_ends:
  assumes "trim s \<noteq> []"
  shows "\<not> is_white_space (hd (trim s))" "\<not> is_white_space (last (trim s))"
proof -
  let ?u = "dropWhile is_white_space s"
  let ?v = "dropWhile is_white_space (rev ?u)"
  have t: "trim s = rev ?v" by (simp add: trim_def)
  with assms have v: "?v \<noteq> []" by simp
  then have "\<not> is_white_space (hd ?v)" by (rule hd_dropWhile)
  moreover have "last (trim s) = hd ?v" using v t by (simp add: last_rev)
  ultimately show "\<not> is_white_space (last (trim s))" by simp
  have u: "?u \<noteq> []"
  proof
    assume a: "?u = []"
    have "?v = []" by (simp only: a rev.simps dropWhile.simps)
    with v show False by (rule notE)
  qed
  then have nu: "\<not> is_white_space (hd ?u)" by (rule hd_dropWhile)
  have "rev ?u = takeWhile is_white_space (rev ?u) @ ?v" by simp
  then have "last (rev ?u) = last (takeWhile is_white_space (rev ?u) @ ?v)" by simp
  also have "\<dots> = last ?v" using v by (rule last_appendR)
  finally have "last (rev ?u) = last ?v" .
  then have "hd ?u = last ?v" using u by (simp add: last_rev)
  moreover have "hd (trim s) = last ?v" using v t by (simp add: hd_rev)
  ultimately show "\<not> is_white_space (hd (trim s))" using nu by simp
qed

lemma trim_unique:
  assumes "s = l @ t @ r" "list_all is_white_space l" "list_all is_white_space r"
    "t = [] \<or> (\<not> is_white_space (hd t) \<and> \<not> is_white_space (last t))"
  shows "trim s = t"
proof (cases "t = []")
  case True
  with assms have "list_all is_white_space s" by simp
  then have d: "dropWhile is_white_space s = []"
    by (simp only: dropWhile_eq_Nil_conv list_all_iff)
  have "trim s = []" by (simp only: trim_def d rev.simps dropWhile.simps)
  with True show ?thesis by simp
next
  case False
  with assms(4) have h: "\<not> is_white_space (hd t)" and e: "\<not> is_white_space (last t)" by simp_all
  have "dropWhile is_white_space t = t" using False h by (cases t) simp_all
  then have "dropWhile is_white_space (t @ r) = t @ r" using False h by (cases t) simp_all
  moreover have "dropWhile is_white_space (l @ t @ r) = dropWhile is_white_space (t @ r)"
  proof (rule dropWhile_append2)
    fix x assume "x \<in> set l"
    then show "is_white_space x" using assms(2) by (simp add: list_all_iff)
  qed
  ultimately have u: "dropWhile is_white_space s = t @ r" using assms(1) by simp
  have rt: "rev t \<noteq> []" using False by simp
  have "hd (rev t) = last t" using False by (simp add: hd_rev)
  with e have "\<not> is_white_space (hd (rev t))" by simp
  then have "dropWhile is_white_space (rev t) = rev t" using rt by (cases "rev t") simp_all
  moreover have "dropWhile is_white_space (rev r @ rev t) = dropWhile is_white_space (rev t)"
  proof (rule dropWhile_append2)
    fix x assume "x \<in> set (rev r)"
    then show "is_white_space x" using assms(3) by (simp add: list_all_iff)
  qed
  ultimately have "dropWhile is_white_space (rev (t @ r)) = rev t" by simp
  then show ?thesis by (simp only: trim_def u rev_rev_ident)
qed

lemma spec_trimmed_iff: "spec_trimmed s t \<longleftrightarrow> t = trim s"
proof
  assume "spec_trimmed s t"
  then obtain l r where "s = l @ t @ r" "list_all is_white_space l" "list_all is_white_space r"
    "t = [] \<or> (\<not> is_white_space (hd t) \<and> \<not> is_white_space (last t))"
    unfolding spec_trimmed_def by blast
  then have "trim s = t" by (rule trim_unique)
  then show "t = trim s" by simp
next
  assume t: "t = trim s"
  obtain l r where "s = l @ trim s @ r" "list_all is_white_space l" "list_all is_white_space r"
    using trim_decompose by blast
  moreover have "trim s = [] \<or> (\<not> is_white_space (hd (trim s)) \<and> \<not> is_white_space (last (trim s)))"
    using trim_ends [of s] by (cases "trim s = []") simp_all
  ultimately have "\<exists>l r. s = l @ trim s @ r \<and> list_all is_white_space l \<and>
      list_all is_white_space r \<and>
      (trim s = [] \<or> (\<not> is_white_space (hd (trim s)) \<and> \<not> is_white_space (last (trim s))))"
    by (intro exI [of _ l] exI [of _ r]) simp
  then show "spec_trimmed s t" by (simp only: spec_trimmed_def t)
qed

lemma blank_examples:
  "isVersionPinned (js ''  ^2.3.4 '')" "\<not> isVersionPinned (js ''2. 3'')"
  by code_simp+

lemma padded_pinned:
  assumes "is_white_space c"
  shows "isVersionPinned ([c] @ js ''2.3'' @ [c])"
proof -
  have ends: "js ''2.3'' = [] \<or>
      (\<not> is_white_space (hd (js ''2.3'')) \<and> \<not> is_white_space (last (js ''2.3'')))"
    by (simp add: js_def is_white_space_def)
  have "trim ([c] @ js ''2.3'' @ [c]) = js ''2.3''"
    using refl _ _ ends by (rule trim_unique) (simp_all add: assms)
  moreover have "trim (js ''2.3'') = js ''2.3''"
    using _ _ _ ends by (rule trim_unique [where l = "[]" and r = "[]"]) simp_all
  ultimately have "trim ([c] @ js ''2.3'' @ [c]) = trim (js ''2.3'')" by simp
  then show ?thesis using pinned_examples(1) by (simp only: isVersionPinned_def)
qed

lemma is_white_space_units: "is_white_space c \<longleftrightarrow> c \<in> set white_space_units"
proof -
  have "(8192 \<le> unat c \<and> unat c \<le> 8202) \<longleftrightarrow>
      unat c = 8192 \<or> unat c = 8193 \<or> unat c = 8194 \<or> unat c = 8195 \<or> unat c = 8196 \<or>
      unat c = 8197 \<or> unat c = 8198 \<or> unat c = 8199 \<or> unat c = 8200 \<or> unat c = 8201 \<or>
      unat c = 8202"
    by arith
  then show ?thesis
    unfolding is_white_space_def white_space_units_def
    by (simp add: word_unat_eq_iff word_le_nat_alt) blast
qed

lemma is_digit_units: "is_digit c \<longleftrightarrow> c \<in> set (js ''0123456789'')"
proof -
  have "(48 \<le> unat c \<and> unat c \<le> 57) \<longleftrightarrow>
      unat c = 48 \<or> unat c = 49 \<or> unat c = 50 \<or> unat c = 51 \<or> unat c = 52 \<or>
      unat c = 53 \<or> unat c = 54 \<or> unat c = 55 \<or> unat c = 56 \<or> unat c = 57"
    by arith
  then show ?thesis
    unfolding is_digit_def js_def
    by (simp add: word_unat_eq_iff word_le_nat_alt) 
qed

lemma isVersionPinned_pattern: "isVersionPinned version \<longleftrightarrow> spec_pinned_pattern (trim version)"
proof -
  have "isVersionPinned version \<longleftrightarrow> trim version \<in> lang version_body"
    unfolding isVersionPinned_def regexp_test_def PINNED_anchored
    using anchor_free_body by (rule test_anchored)
  then show ?thesis by (simp only: lang_body)
qed

lemma one_or_more_digits_ends:
  "one_or_more_digits d \<Longrightarrow> d \<noteq> [] \<and> is_digit (hd d) \<and> is_digit (last d)"
  by (cases d) (auto simp: one_or_more_digits_def list_all_iff)

lemma spec_pinned_pattern_hd:
  assumes "spec_pinned_pattern t"
  shows "hd t = chr CHR ''^'' \<or> hd t = chr CHR ''~'' \<or> is_digit (hd t)"
proof -
  from assms obtain p d1 u where t: "t = p @ d1 @ u" "p = [] \<or> p = js ''^'' \<or> p = js ''~''"
    "one_or_more_digits d1"
    unfolding spec_pinned_pattern_def by blast
  from t(3) have d1: "d1 \<noteq> []" "is_digit (hd d1)" using one_or_more_digits_ends by blast+
  from t(2) show ?thesis
  proof (elim disjE)
    assume "p = []"
    with t(1) d1 show ?thesis by simp
  next
    assume "p = js ''^''"
    with t(1) show ?thesis by (simp add: js_def chr_def)
  next
    assume "p = js ''~''"
    with t(1) show ?thesis by (simp add: js_def chr_def)
  qed
qed

lemma spec_pinned_pattern_last:
  assumes "spec_pinned_pattern t"
  shows "is_digit (last t) \<or> last t = chr CHR ''*'' \<or> last t = chr CHR ''x''"
proof -
  from assms obtain u d2 r where t: "t = u @ d2 @ r" "one_or_more_digits d2"
    "r = [] \<or> (\<exists>d3. r = js ''.'' @ d3 \<and> one_or_more_digits d3) \<or> r = js ''.*'' \<or> r = js ''.x''"
    unfolding spec_pinned_pattern_def by (metis append.assoc)
  from t(2) have d2: "d2 \<noteq> []" "is_digit (last d2)" using one_or_more_digits_ends by blast+
  from t(3) show ?thesis
  proof (elim disjE exE conjE)
    assume "r = []"
    with t(1) d2 show ?thesis by simp
  next
    fix d3 assume r: "r = js ''.'' @ d3" and "one_or_more_digits d3"
    then have "d3 \<noteq> []" "is_digit (last d3)" using one_or_more_digits_ends by blast+
    with t(1) r show ?thesis by simp
  next
    assume "r = js ''.*''"
    with t(1) show ?thesis by (simp add: js_def chr_def)
  next
    assume "r = js ''.x''"
    with t(1) show ?thesis by (simp add: js_def chr_def)
  qed
qed

lemma framed_pinned_iff:
  "isVersionPinned ([c] @ js ''2.3'' @ [c]) \<longleftrightarrow> is_white_space c \<or> is_digit c"
proof (cases "is_white_space c")
  case True
  then have "isVersionPinned ([c] @ js ''2.3'' @ [c])" by (rule padded_pinned)
  with True show ?thesis by blast
next
  case False
  let ?v = "[c] @ js ''2.3'' @ [c]"
  have ends: "?v = [] \<or> (\<not> is_white_space (hd ?v) \<and> \<not> is_white_space (last ?v))"
    using False by simp
  have tv: "trim ?v = ?v"
    using _ _ _ ends by (rule trim_unique [where l = "[]" and r = "[]"]) simp_all
  show ?thesis
  proof (cases "is_digit c")
    case True
    have "?v = [] @ [c, chr CHR ''2''] @ js ''.'' @ [chr CHR ''3'', c] @ []"
      by (simp add: js_def chr_def)
    moreover have "one_or_more_digits [c, chr CHR ''2'']" "one_or_more_digits [chr CHR ''3'', c]"
      using True by (simp_all add: one_or_more_digits_def is_digit_def chr_def)
    ultimately have "spec_pinned_pattern ?v" unfolding spec_pinned_pattern_def by blast
    with tv have "isVersionPinned ?v" by (simp only: isVersionPinned_pattern)
    with True show ?thesis by blast
  next
    case nd: False
    have "\<not> spec_pinned_pattern ?v"
    proof
      assume p: "spec_pinned_pattern ?v"
      from spec_pinned_pattern_hd [OF p] nd
      have "c = chr CHR ''^'' \<or> c = chr CHR ''~''" by simp
      moreover from spec_pinned_pattern_last [OF p] nd
      have "c = chr CHR ''*'' \<or> c = chr CHR ''x''" by simp
      ultimately show False by (auto simp: chr_def)
    qed
    with tv have "\<not> isVersionPinned ?v" by (simp add: isVersionPinned_pattern)
    with nd False show ?thesis by blast
  qed
qed

section \<open>The division of the counts\<close>

lemma scale_eq:
  assumes "k \<noteq> 0" and "2 ^ 52 * n \<le> k * 2 ^ t"
    and "t = s \<or> (s < t \<and> k * 2 ^ (t - 1) < 2 ^ 52 * n)"
  shows "scale k n s = t"
  using assms(3)
proof (induction "t - s" arbitrary: s)
  case 0
  then have "t = s" by auto
  with assms(2) show ?case by (simp add: scale.simps)
next
  case (Suc d)
  then have lt: "s < t" and small: "k * 2 ^ (t - 1) < 2 ^ 52 * n" by auto
  have "(2::nat) ^ s \<le> 2 ^ (t - 1)" using lt by (intro power_increasing) auto
  then have "k * 2 ^ s \<le> k * 2 ^ (t - 1)" by simp
  with small have "k * 2 ^ s < 2 ^ 52 * n" by linarith
  then have "scale k n s = scale k n (Suc s)" using assms(1) by (subst scale.simps) simp
  moreover have "scale k n (Suc s) = t"
  proof (rule Suc.hyps(1))
    show "d = t - Suc s" using Suc.hyps(2) by simp
    show "t = Suc s \<or> (Suc s < t \<and> k * 2 ^ (t - 1) < 2 ^ 52 * n)" using lt small by auto
  qed
  ultimately show ?case by simp
qed

lemma scale_1_2: "scale 1 2 0 = 53" by (rule scale_eq) simp_all
lemma scale_1_3: "scale 1 3 0 = 54" by (rule scale_eq) simp_all
lemma double_div_1_2: "double_div 1 2 = 1 / 2"
  by (simp only: double_div_def scale_1_2 Let_def) (simp add: round_half_even_def)
lemma double_div_Suc_1_2: "double_div (Suc 0) (Suc (Suc 0)) = 1 / 2"
  using double_div_1_2 by (simp add: numeral_2_eq_2)

lemma double_div_1_3: "double_div 1 3 = 6004799503160661 / 18014398509481984"
  by (simp only: double_div_def scale_1_3 Let_def) (simp add: round_half_even_def)
lemma double_div_Suc_1_3:
  "double_div (Suc 0) (Suc (Suc (Suc 0))) = 6004799503160661 / 18014398509481984"
  using double_div_1_3 by (simp add: numeral_3_eq_3)

lemma scale_post: "k \<noteq> 0 \<Longrightarrow> 2 ^ 52 * n \<le> k * 2 ^ scale k n s"
proof (induction k n s rule: scale.induct)
  case (1 k n s)
  show ?case
  proof (cases "2 ^ 52 * n \<le> k * 2 ^ s")
    case True
    then show ?thesis by (subst scale.simps) simp
  next
    case False
    with "1.prems" have "scale k n s = scale k n (Suc s)" by (subst scale.simps) simp
    moreover have "2 ^ 52 * n \<le> k * 2 ^ scale k n (Suc s)"
      using False "1.prems" by (intro "1.IH") simp_all
    ultimately show ?thesis by simp
  qed
qed

lemma scale_min: "s \<le> j \<Longrightarrow> j < scale k n s \<Longrightarrow> k * 2 ^ j < 2 ^ 52 * n"
proof (induction k n s rule: scale.induct)
  case (1 k n s)
  show ?case
  proof (cases "k = 0 \<or> 2 ^ 52 * n \<le> k * 2 ^ s")
    case True
    then have "scale k n s = s" by (subst scale.simps) simp
    with "1.prems" show ?thesis by simp
  next
    case False
    then have eq: "scale k n s = scale k n (Suc s)" by (subst scale.simps) simp
    show ?thesis
    proof (cases "j = s")
      case True
      with False show ?thesis by simp
    next
      case False2: False
      with "1.prems" eq have "Suc s \<le> j" "j < scale k n (Suc s)" by simp_all
      with False show ?thesis by (intro "1.IH") simp_all
    qed
  qed
qed

lemma round_half_even_upper:
  assumes "0 < n" "a \<le> N * n"
  shows "round_half_even a n \<le> N"
proof -
  have "a div n \<le> (N * n) div n" using assms(2) by (rule div_le_mono)
  then have d: "a div n \<le> N" using assms(1) by simp
  show ?thesis
  proof (cases "a div n = N")
    case True
    have "a = a div n * n + a mod n" by simp
    with True assms(2) have "a mod n = 0" by (metis add_cancel_right_right le_antisym le_add1)
    with True assms(1) show ?thesis by (simp add: round_half_even_def)
  next
    case False
    with d have "a div n + 1 \<le> N" by simp
    then show ?thesis by (simp add: round_half_even_def Let_def)
  qed
qed

lemma round_half_even_lower:
  assumes "0 < n" "N * n \<le> a"
  shows "N \<le> round_half_even a n"
proof -
  have "(N * n) div n \<le> a div n" using assms(2) by (rule div_le_mono)
  then have "N \<le> a div n" using assms(1) by simp
  then show ?thesis by (simp add: round_half_even_def Let_def)
qed

lemma round_half_even_error:
  assumes "0 < n"
  shows "\<bar>real (round_half_even a n) - real a / real n\<bar> * 2 < 1 \<or>
         (\<bar>real (round_half_even a n) - real a / real n\<bar> * 2 = 1 \<and> even (round_half_even a n))"
proof -
  let ?d = "a div n" and ?r = "a mod n"
  have "real a = real ?d * real n + real ?r"
    by (metis div_mult_mod_eq of_nat_add of_nat_mult)
  then have q: "real a / real n = real ?d + real ?r / real n"
    using assms by (simp add: field_simps)
  have rn: "?r < n" using assms by simp
  consider "2 * ?r < n" | "n < 2 * ?r" | "2 * ?r = n" by linarith
  then show ?thesis
  proof cases
    case 1
    then have "round_half_even a n = ?d" by (simp add: round_half_even_def)
    moreover have "real ?r / real n * 2 < 1"
    proof -
      have "real (2 * ?r) < real n" using 1 by (simp only: of_nat_less_iff)
      then show ?thesis using assms by (simp add: field_simps)
    qed
    ultimately show ?thesis using q by simp
  next
    case 2
    then have "round_half_even a n = ?d + 1" by (simp add: round_half_even_def)
    moreover have "(1 - real ?r / real n) * 2 < 1" "0 \<le> 1 - real ?r / real n"
    proof -
      have "real n < real (2 * ?r)" using 2 by (simp only: of_nat_less_iff)
      then show "(1 - real ?r / real n) * 2 < 1" using assms by (simp add: field_simps)
      have "real ?r \<le> real n" using rn by simp
      then show "0 \<le> 1 - real ?r / real n" using assms by (simp add: field_simps)
    qed
    ultimately show ?thesis using q by simp
  next
    case 3
    then have e: "even (round_half_even a n)" by (simp add: round_half_even_def Let_def)
    have half: "real ?r / real n = 1 / 2"
    proof -
      have "real (2 * ?r) = real n" using 3 by simp
      then show ?thesis using assms by (simp add: field_simps)
    qed
    have "round_half_even a n = ?d \<or> round_half_even a n = ?d + 1"
      by (simp add: round_half_even_def Let_def)
    then have "\<bar>real (round_half_even a n) - real a / real n\<bar> * 2 = 1"
      using q half by auto
    with e show ?thesis by simp
  qed
qed

lemma double_div_zero: "0 < n \<Longrightarrow> double_div 0 n = 0"
  by (simp add: double_div_def scale.simps round_half_even_def)

lemma double_div_bounds:
  assumes "0 < n" "k \<le> n"
  shows "0 \<le> double_div k n \<and> double_div k n \<le> 1"
proof -
  let ?s = "scale k n 0"
  have "k * 2 ^ ?s \<le> 2 ^ ?s * n" using assms(2) by simp
  with assms(1) have "round_half_even (k * 2 ^ ?s) n \<le> 2 ^ ?s" by (rule round_half_even_upper)
  then have "real (round_half_even (k * 2 ^ ?s) n) \<le> real (2 ^ ?s)"
    by (simp only: of_nat_le_iff)
  then have "real (round_half_even (k * 2 ^ ?s) n) \<le> 2 ^ ?s" by simp
  then show ?thesis by (simp add: double_div_def Let_def)
qed

lemma double_div_rounded:
  assumes "0 < n" "k \<le> n"
  shows "correctly_rounded (real k / real n) (double_div k n)"
proof (cases "k = 0")
  case True
  with assms(1) show ?thesis by (simp add: correctly_rounded_def double_div_zero)
next
  case False
  let ?s = "scale k n 0"
  let ?a = "k * 2 ^ ?s"
  let ?M = "round_half_even ?a n"
  have q: "double_div k n = real ?M / 2 ^ ?s" by (simp add: double_div_def Let_def)
  have "2 ^ 52 * n \<le> ?a" using False by (rule scale_post)
  with assms(1) have lo: "2 ^ 52 \<le> ?M" by (rule round_half_even_lower)
  have "?a \<le> 2 ^ 53 * n"
  proof (cases "?s = 0")
    case True
    have "n \<le> 2 ^ 53 * n" by simp
    with assms(2) have "k \<le> 2 ^ 53 * n" by (rule le_trans)
    with True show ?thesis by simp
  next
    case nz: False
    then obtain j where j: "?s = Suc j" by (cases ?s) simp_all
    then have "j < ?s" by simp
    then have "k * 2 ^ j < 2 ^ 52 * n" by (intro scale_min) simp_all
    then have "2 * (k * 2 ^ j) \<le> 2 * (2 ^ 52 * n)" by simp
    moreover have "2 * (k * 2 ^ j) = k * 2 ^ Suc j" by simp
    ultimately have "k * 2 ^ Suc j \<le> 2 ^ 53 * n" by simp
    with j show ?thesis by simp
  qed
  with assms(1) have hi: "?M \<le> 2 ^ 53" by (rule round_half_even_upper)
  have x: "real k / real n = (real ?a / real n) / 2 ^ ?s" by simp
  have eq: "\<bar>double_div k n - real k / real n\<bar> * 2 ^ (?s + 1)
      = \<bar>real ?M - real ?a / real n\<bar> * 2"
  proof -
    have "double_div k n - real k / real n = (real ?M - real ?a / real n) / 2 ^ ?s"
      by (simp only: q x diff_divide_distrib)
    then have "\<bar>double_div k n - real k / real n\<bar> = \<bar>real ?M - real ?a / real n\<bar> / 2 ^ ?s"
      by (simp add: abs_divide)
    then show ?thesis by simp
  qed
  have "\<bar>double_div k n - real k / real n\<bar> * 2 ^ (?s + 1) < 1 \<or>
      (\<bar>double_div k n - real k / real n\<bar> * 2 ^ (?s + 1) = 1 \<and> even ?M)"
    unfolding eq using assms(1) by (rule round_half_even_error)
  with lo hi q show ?thesis unfolding correctly_rounded_def by blast
qed

section \<open>Counting the pinned dependencies\<close>

lemma set_own_keys: "set (own_keys ps) = fst ` set ps"
  by (auto simp: own_keys_def Let_def)

lemma length_filter_own_keys:
  "length (filter P (own_keys ps)) = length (filter P (map fst ps))"
proof -
  let ?ks = "map fst ps"
  have "length (filter P (own_keys ps)) =
      length (filter P (filter is_array_index ?ks)) +
      length (filter P (filter (\<lambda>k. \<not> is_array_index k) ?ks))"
    by (simp add: own_keys_def Let_def filter_sort)
  also have "\<dots> = length (filter is_array_index (filter P ?ks)) +
      length (filter (\<lambda>k. \<not> is_array_index k) (filter P ?ks))"
    by (simp add: conj_commute)
  also have "\<dots> = length (filter P ?ks)"
    by (rule sum_length_filter_compl)
  finally show ?thesis .
qed

lemma length_own_keys: "length (own_keys ps) = length ps"
  using length_filter_own_keys [of "\<lambda>k. True" ps] by simp

lemma forEach_dep_bounds:
  "forEach_dep env ps ks acc = Inr n \<Longrightarrow> acc \<le> n \<and> n \<le> acc + length ks"
proof (induction ks arbitrary: acc)
  case Nil
  then show ?case by simp
next
  case (Cons k ks)
  from Cons.prems obtain b where
    "forEach_dep env ps ks (if b then acc + 1 else acc) = Inr n"
    by (auto split: sum.splits)
  then have "(if b then acc + 1 else acc) \<le> n \<and> n \<le> (if b then acc + 1 else acc) + length ks"
    by (rule Cons.IH)
  then show ?case by (simp split: if_splits)
qed

lemma forEach_dep_strings:
  "list_all (\<lambda>k. \<exists>version. prop_get ps k = Str version) ks \<Longrightarrow>
   forEach_dep env ps ks acc = Inr (acc + length (filter (\<lambda>k. pinned_value (prop_get ps k)) ks))"
  by (induction ks arbitrary: acc) (auto simp: pinned_value_def)

lemma prop_get_dependency_map:
  "distinct (map fst m) \<Longrightarrow> (name, version) \<in> set m \<Longrightarrow>
   prop_get (dependency_map m) name = Str version"
proof -
  assume d: "distinct (map fst m)" and i: "(name, version) \<in> set m"
  have "map fst (dependency_map m) = map fst m"
    by (simp add: dependency_map_def case_prod_beta comp_def)
  with d have "distinct (map fst (dependency_map m))" by simp
  moreover from i have "(name, Str version) \<in> set (dependency_map m)"
    by (force simp: dependency_map_def)
  ultimately have "map_of (dependency_map m) name = Some (Str version)" by simp
  then show ?thesis by (simp add: prop_get_def)
qed

lemma pinned_keys_dependency_map:
  assumes "distinct (map fst m)"
  shows "filter (\<lambda>k. pinned_value (prop_get (dependency_map m) k)) (map fst m)
         = map fst (filter (\<lambda>(name, version). isVersionPinned version) m)"
proof -
  have "filter (\<lambda>k. pinned_value (prop_get (dependency_map m) k)) (map fst m)
        = map fst (filter (\<lambda>e. pinned_value (prop_get (dependency_map m) (fst e))) m)"
    by (simp add: filter_map comp_def)
  also have "filter (\<lambda>e. pinned_value (prop_get (dependency_map m) (fst e))) m
        = filter (\<lambda>(name, version). isVersionPinned version) m"
  proof (rule filter_cong [OF refl])
    fix e assume "e \<in> set m"
    then have "prop_get (dependency_map m) (fst e) = Str (snd e)"
      using assms prop_get_dependency_map [of m "fst e" "snd e"] by simp
    then show "pinned_value (prop_get (dependency_map m) (fst e))
        = (case e of (name, version) \<Rightarrow> isVersionPinned version)"
      by (simp add: pinned_value_def case_prod_beta)
  qed
  finally show ?thesis .
qed

lemma calculatePinningScore_dependency_map:
  assumes "distinct (map fst m)"
  shows "calculatePinningScore env (dependency_map m) =
     Inr (if m = [] then 1
          else double_div (length (filter (\<lambda>(name, version). isVersionPinned version) m))
                 (length m))"
proof -
  let ?ps = "dependency_map m"
  have keys: "map fst ?ps = map fst m"
    by (simp add: dependency_map_def case_prod_beta comp_def)
  have "list_all (\<lambda>k. \<exists>version. prop_get ?ps k = Str version) (own_keys ?ps)"
    unfolding list_all_iff set_own_keys
  proof
    fix k assume "k \<in> fst ` set ?ps"
    then have "k \<in> set (map fst m)" using keys by (metis set_map)
    then obtain version where "(k, version) \<in> set m" by auto
    with assms show "\<exists>version. prop_get ?ps k = Str version"
      using prop_get_dependency_map by blast
  qed
  then have "forEach_dep env ?ps (own_keys ?ps) 0 =
      Inr (length (filter (\<lambda>k. pinned_value (prop_get ?ps k)) (own_keys ?ps)))"
    using forEach_dep_strings [of ?ps "own_keys ?ps" env 0] by simp
  also have "length (filter (\<lambda>k. pinned_value (prop_get ?ps k)) (own_keys ?ps))
      = length (filter (\<lambda>(name, version). isVersionPinned version) m)"
    using assms by (simp add: length_filter_own_keys keys pinned_keys_dependency_map)
  finally have loop: "forEach_dep env ?ps (own_keys ?ps) 0 =
      Inr (length (filter (\<lambda>(name, version). isVersionPinned version) m))" .
  have len: "length (own_keys ?ps) = length m"
    by (simp add: length_own_keys dependency_map_def)
  then have "own_keys ?ps = [] \<longleftrightarrow> m = []" by (metis length_0_conv)
  with loop len show ?thesis by (simp add: calculatePinningScore_def Let_def)
qed

lemma counts_of_equal_sets:
  assumes "distinct (map fst m1)" "distinct (map fst m2)" "set m1 = set m2"
  shows "length (filter P m1) = length (filter P m2)"
proof -
  have "distinct m1" "distinct m2" using assms(1,2) by (simp_all add: distinct_map)
  then have "distinct (filter P m1)" "distinct (filter P m2)" by simp_all
  then have "card (set (filter P m1)) = length (filter P m1)"
    "card (set (filter P m2)) = length (filter P m2)"
    using distinct_card by blast+
  moreover have "set (filter P m1) = set (filter P m2)" using assms(3) by simp
  ultimately show ?thesis by simp
qed

lemma calculatePinningScore_bounds:
  "calculatePinningScore env deps = Inr score \<Longrightarrow> 0 \<le> score \<and> score \<le> 1"
proof -
  assume a: "calculatePinningScore env deps = Inr score"
  show ?thesis
  proof (cases "own_keys deps = []")
    case True
    with a show ?thesis by (simp add: calculatePinningScore_def)
  next
    case False
    with a obtain n where n: "forEach_dep env deps (own_keys deps) 0 = Inr n"
      "score = double_div n (length (own_keys deps))"
      by (auto simp: calculatePinningScore_def Let_def split: sum.splits)
    from n(1) have "n \<le> length (own_keys deps)" using forEach_dep_bounds by fastforce
    moreover have "0 < length (own_keys deps)" using False by simp
    ultimately show ?thesis unfolding n(2) by (intro double_div_bounds)
  qed
qed

section \<open>Merging the dependency categories\<close>

lemma map_of_prop_put: "map_of (prop_put ps k v) = (map_of ps)(k \<mapsto> v)"
  by (induction ps) (auto simp: fun_eq_iff)

lemma map_of_fold_put:
  "map_of (fold (\<lambda>(k, v) t. prop_put t k v) xs t) = map_of t ++ map_of (rev xs)"
proof (induction xs arbitrary: t)
  case Nil
  show ?case by simp
next
  case (Cons x xs)
  obtain k v where x: "x = (k, v)" by (cases x)
  have "map_of (fold (\<lambda>(k, v) t. prop_put t k v) (x # xs) t)
      = map_of (prop_put t k v) ++ map_of (rev xs)"
    using Cons.IH [of "prop_put t k v"] x by simp
  also have "\<dots> = map_of t ++ map_of (rev (x # xs))"
    by (simp add: map_of_prop_put x fun_eq_iff map_add_def split: option.splits)
  finally show ?case .
qed

lemma digit_unit: "d < 10 \<Longrightarrow> unat ((of_nat (48 + d) :: 16 word) - 0x30) = d"
proof -
  assume d: "d < 10"
  have "(of_nat (48 + d) :: 16 word) - 0x30 = of_nat d" by simp
  then show ?thesis using d by (simp add: unat_of_nat)
qed

lemma digits_value_snoc:
  "digits_value (k @ [c]) = 10 * digits_value k + unat (c - 0x30)"
  by (simp add: digits_value_def)

lemma digits_value_decimal: "digits_value (decimal n) = n"
proof (induction n rule: decimal.induct)
  case (1 n)
  show ?case
  proof (cases "n < 10")
    case True
    then have "decimal n = [] @ [of_nat (48 + n)]" by (simp add: decimal.simps)
    then have "digits_value (decimal n) = unat ((of_nat (48 + n) :: 16 word) - 0x30)"
      by (simp only: digits_value_snoc) (simp add: digits_value_def)
    with True show ?thesis by (simp only: digit_unit)
  next
    case False
    then have "decimal n = decimal (n div 10) @ [of_nat (48 + n mod 10)]"
      by (subst decimal.simps) simp
    then have "digits_value (decimal n) =
        10 * digits_value (decimal (n div 10)) + unat ((of_nat (48 + n mod 10) :: 16 word) - 0x30)"
      by (simp only: digits_value_snoc)
    also have "\<dots> = 10 * (n div 10) + n mod 10"
      using "1.IH" [OF False] digit_unit [of "n mod 10"] by simp
    finally show ?thesis by simp
  qed
qed

lemma inj_decimal: "inj decimal"
  by (rule inj_on_inverseI [where g = digits_value]) (rule digits_value_decimal)

lemma distinct_index_props: "distinct (map fst (index_props xs))"
proof -
  have "map fst (index_props xs) = map decimal [0..<length xs]"
    by (simp add: index_props_def)
  moreover have "distinct (map decimal [0..<length xs])"
    using inj_decimal by (simp add: distinct_map inj_on_def inj_def)
  ultimately show ?thesis by simp
qed

lemma map_of_rev_distinct:
  "distinct (map fst xs) \<Longrightarrow> map_of (rev xs) = map_of xs"
proof -
  assume d: "distinct (map fst xs)"
  then have "distinct (map fst (rev xs))" by (simp add: rev_map [symmetric])
  moreover have "set (rev xs) = set xs" by simp
  ultimately show ?thesis using d by (simp only: map_of_inject_set)
qed

lemma map_of_own_props: "map_of (rev (map (\<lambda>k. (k, prop_get ps k)) (own_keys ps))) = map_of ps"
proof
  fix k
  have "map_of (rev (map (\<lambda>k. (k, prop_get ps k)) (own_keys ps)))
      = map_of (map (\<lambda>k. (k, prop_get ps k)) (rev (own_keys ps)))"
    by (simp only: rev_map)
  also have "\<dots> = (Some \<circ> prop_get ps) |` set (rev (own_keys ps))"
    by (rule map_of_map_restrict)
  also have "\<dots> = (Some \<circ> prop_get ps) |` (fst ` set ps)"
    by (simp add: set_own_keys)
  finally have "map_of (rev (map (\<lambda>k. (k, prop_get ps k)) (own_keys ps))) k
      = ((Some \<circ> prop_get ps) |` (fst ` set ps)) k" by simp
  also have "\<dots> = map_of ps k"
  proof (cases "map_of ps k")
    case None
    then have "k \<notin> fst ` set ps" by (simp add: map_of_eq_None_iff)
    with None show ?thesis by (simp add: restrict_map_def)
  next
    case (Some v)
    then have "k \<in> fst ` set ps" by (metis map_of_eq_None_iff option.distinct(1))
    with Some show ?thesis by (simp add: restrict_map_def prop_get_def)
  qed
  finally show "map_of (rev (map (\<lambda>k. (k, prop_get ps k)) (own_keys ps))) k = map_of ps k" .
qed

lemma map_of_rev_own_enumerable_props:
  "map_of (rev (own_enumerable_props v)) = category_entries v"
proof (cases v)
  case (Obj ps)
  then show ?thesis by (simp only: own_enumerable_props.simps category_entries.simps map_of_own_props)
next
  case (Arr xs)
  then show ?thesis by (simp add: map_of_rev_distinct distinct_index_props)
next
  case (Str s)
  then show ?thesis by (simp add: map_of_rev_distinct distinct_index_props)
qed simp_all

lemma map_of_spread: "map_of (spread target src) = map_of target ++ category_entries src"
  by (simp only: spread_def map_of_fold_put map_of_rev_own_enumerable_props)

section \<open>Results of the fetcher\<close>

lemma fetch_try_score:
  "fetch_try env owner repo headers lg = (Inr (Some score), lg') \<Longrightarrow>
   \<exists>deps. calculatePinningScore env deps = Inr score"
  unfolding fetch_try_def
  by (auto split: sum.splits if_splits)

lemma fraction_score:
  assumes "fst (getDependencyPinningFraction env url token lg) = Inr (Some score)"
  shows "\<exists>deps. calculatePinningScore env deps = Inr score"
proof -
  from assms obtain owner repo headers lg1 lg2 where
    "getDependencyPinningFractionFromPackageJson env owner repo headers lg1 = (Inr (Some score), lg2)"
    unfolding getDependencyPinningFraction_def
    by (auto split: prod.splits sum.splits)
  then obtain lg3 where "fetch_try env owner repo headers lg1 = (Inr (Some score), lg3)"
    unfolding getDependencyPinningFractionFromPackageJson_def
    by (auto split: prod.splits sum.splits)
  then show ?thesis by (rule fetch_try_score)
qed

lemma fetch_try_log: "fetch_try env owner repo headers lg = (Inl e, lg') \<Longrightarrow> lg' = lg"
  unfolding fetch_try_def by (auto split: sum.splits if_splits)

lemma type_error_not_nullish: "\<not> nullish_thrown (type_error env f)"
  by (simp add: type_error_def)











section \<open>A run on a manifest with one pinned and one floating dependency\<close>

lemma more_examples:
  "isVersionPinned (js ''1.2.3'')" "isVersionPinned (js ''^4.17.21'')"
  by code_simp+

lemma example_merged:
  "allDependencies env example_manifest =
     Inr [(js ''lodash'', Str (js ''^4.17.21'')), (js ''jest'', Str (js ''latest''))]"
  by (simp add: allDependencies_def example_manifest_def prop_get_def spread_def own_keys_def
      is_array_index_def is_digit_def js_def)

lemma example_score:
  "calculatePinningScore env
     [(js ''lodash'', Str (js ''^4.17.21'')), (js ''jest'', Str (js ''latest''))] = Inr (1 / 2)"
proof -
  have "own_keys [(js ''lodash'', Str (js ''^4.17.21'')), (js ''jest'', Str (js ''latest''))]
      = [js ''lodash'', js ''jest'']"
    by (simp add: own_keys_def is_array_index_def is_digit_def js_def)
  moreover have "js ''jest'' \<noteq> js ''lodash''" by (simp add: js_def)
  ultimately show ?thesis
    using more_examples(2) unpinned_examples(2)
    by (simp add: calculatePinningScore_def prop_get_def double_div_Suc_1_2)
qed

lemma js_Cons_nonempty: "js (c # cs) \<noteq> []"
  by (simp add: js_def)

lemma example_run:
  "getDependencyPinningFraction example_env (js ''https://github.com/o/r'') (js ''t'') [] =
     (Inr (Some (1 / 2)), [LogDebug (js ''Generated axios parameters'') (js ''o'') (js ''r'')])"
  by (simp add: getDependencyPinningFraction_def get_axios_params_def
      getDependencyPinningFractionFromPackageJson_def fetch_try_def example_env_def fixture_env_def
      prop_get_def example_merged example_score js_Cons_nonempty)

section \<open>The claims\<close>




text \<open>
  C2: \<open>isVersionPinned\<close> is true of exactly the strings whose whitespace-trimmed form is an
  optional \<^verbatim>\<open>^\<close> or \<^verbatim>\<open>~\<close>, one or more digits, a dot, one or more digits, and
  optionally a dot with one or more digits, \<^verbatim>\<open>*\<close> or \<^verbatim>\<open>x\<close>. The white space that is
  trimmed is the 25 listed code units and the digits are the ten ASCII digits: \<^verbatim>\<open>2.3\<close>
  between two copies of a code unit is pinned exactly when the code unit is one of these.
  The classifier is true of \<^verbatim>\<open>2.3\<close>, \<^verbatim>\<open>^2.3.4\<close>, \<^verbatim>\<open>~2.3.x\<close> and \<^verbatim>\<open>2.3.*\<close>, also
  between blanks, and false of \<^verbatim>\<open>*\<close>, \<^verbatim>\<open>latest\<close>, \<^verbatim>\<open>>=1.0.0\<close>, \<^verbatim>\<open>1\<close>,
  \<^verbatim>\<open>1.2.3-beta\<close> and of a version with a blank inside.
\<close>

theorem isVersionPinned_iff_pattern:
  "(isVersionPinned version \<longleftrightarrow> (\<exists>t. spec_trimmed version t \<and> spec_pinned_pattern t)) \<and>
   (isVersionPinned ([c] @ js ''2.3'' @ [c]) \<longleftrightarrow>
      c \<in> set white_space_units \<or> c \<in> set (js ''0123456789'')) \<and>
   isVersionPinned (js ''  ^2.3.4 '') \<and> \<not> isVersionPinned (js ''2. 3'') \<and>
   isVersionPinned (js ''2.3'') \<and> isVersionPinned (js ''^2.3.4'') \<and>
   isVersionPinned (js ''~2.3.x'') \<and> isVersionPinned (js ''2.3.*'') \<and>
   \<not> isVersionPinned (js ''*'') \<and> \<not> isVersionPinned (js ''latest'') \<and>
   \<not> isVersionPinned (js ''>=1.0.0'') \<and> \<not> isVersionPinned (js ''1'') \<and>
   \<not> isVersionPinned (js ''1.2.3-beta'')"
proof -
  have "isVersionPinned version \<longleftrightarrow> (\<exists>t. spec_trimmed version t \<and> spec_pinned_pattern t)"
    by (simp add: isVersionPinned_pattern spec_trimmed_iff)
  moreover have "isVersionPinned ([c] @ js ''2.3'' @ [c]) \<longleftrightarrow>
      c \<in> set white_space_units \<or> c \<in> set (js ''0123456789'')"
    by (simp only: framed_pinned_iff is_white_space_units is_digit_units)
  ultimately show ?thesis
    using pinned_examples unpinned_examples blank_examples by blast
qed

text \<open>C3: for the empty dependency map, \<open>calculatePinningScore\<close> returns exactly 1.\<close>

theorem calculatePinningScore_empty:
  "calculatePinningScore env [] = Inr 1"
  by (simp add: calculatePinningScore_def own_keys_def)

text \<open>
  C4: for a non-empty dependency map of \<open>n\<close> entries, \<open>k\<close> of which have a version that
  \<open>isVersionPinned\<close> classifies as pinned, \<open>calculatePinningScore\<close> returns the quotient of
  the floating-point division of \<open>k\<close> by \<open>n\<close>, which is \<open>k / n\<close> correctly rounded to a
  double and not rounded any further; the map \<^verbatim>\<open>{a: "1.2.3", b: "*"}\<close> yields one half.
\<close>

theorem calculatePinningScore_fraction:
  "m \<noteq> [] \<Longrightarrow> distinct (map fst m) \<Longrightarrow>
   calculatePinningScore env (dependency_map m) =
     Inr (double_div (length (filter (\<lambda>(name, version). isVersionPinned version) m))
            (length m)) \<and>
   correctly_rounded
     (real (length (filter (\<lambda>(name, version). isVersionPinned version) m)) / real (length m))
     (double_div (length (filter (\<lambda>(name, version). isVersionPinned version) m)) (length m))"
proof -
  assume m: "m \<noteq> []" and d: "distinct (map fst m)"
  let ?k = "length (filter (\<lambda>(name, version). isVersionPinned version) m)"
  from m d have "calculatePinningScore env (dependency_map m) = Inr (double_div ?k (length m))"
    by (simp add: calculatePinningScore_dependency_map)
  moreover have "0 < length m" using m by simp
  then have "correctly_rounded (real ?k / real (length m)) (double_div ?k (length m))"
    by (rule double_div_rounded) simp
  ultimately show ?thesis by simp
qed

theorem calculatePinningScore_fraction_witness:
  "[(js ''a'', js ''1.2.3''), (js ''b'', js ''*'')] \<noteq> [] \<and>
   distinct (map fst [(js ''a'', js ''1.2.3''), (js ''b'', js ''*'')]) \<and>
   calculatePinningScore example_env
     (dependency_map [(js ''a'', js ''1.2.3''), (js ''b'', js ''*'')]) = Inr (1 / 2) \<and>
   correctly_rounded (1 / 2) (1 / 2) \<and>
   distinct (map fst [(js ''a'', js ''1.2.3''), (js ''b'', js ''*''), (js ''c'', js ''latest'')]) \<and>
   calculatePinningScore example_env
     (dependency_map [(js ''a'', js ''1.2.3''), (js ''b'', js ''*''), (js ''c'', js ''latest'')])
     = Inr (6004799503160661 / 18014398509481984) \<and>
   correctly_rounded (1 / 3) (6004799503160661 / 18014398509481984)"
proof -
  let ?m = "[(js ''a'', js ''1.2.3''), (js ''b'', js ''*'')]"
  let ?m3 = "[(js ''a'', js ''1.2.3''), (js ''b'', js ''*''), (js ''c'', js ''latest'')]"
  have h1: "?m \<noteq> []" by simp
  have h2: "distinct (map fst ?m)" by (simp add: js_def)
  have h3: "?m3 \<noteq> []" by simp
  have h4: "distinct (map fst ?m3)" by (simp add: js_def)
  show ?thesis
    using h1 h2 h4
      calculatePinningScore_fraction [OF h1 h2, of example_env]
      calculatePinningScore_fraction [OF h3 h4, of example_env]
      more_examples(1) unpinned_examples(1,2)
    by (simp add: double_div_Suc_1_2 double_div_Suc_1_3)
qed

text \<open>
  C5: the result of \<open>calculatePinningScore\<close> lies between 0 and 1, and so does every
  result of \<open>getDependencyPinningFraction\<close> that is a number.
\<close>

theorem pinning_score_in_unit_interval:
  "(calculatePinningScore env deps = Inr score \<longrightarrow> 0 \<le> score \<and> score \<le> 1) \<and>
   (fst (getDependencyPinningFraction env url token lg) = Inr (Some fraction) \<longrightarrow>
      0 \<le> fraction \<and> fraction \<le> 1)"
proof (intro conjI impI)
  assume "calculatePinningScore env deps = Inr score"
  then have "0 \<le> score \<and> score \<le> 1" by (rule calculatePinningScore_bounds)
  then show "0 \<le> score" "score \<le> 1" by simp_all
next
  assume "fst (getDependencyPinningFraction env url token lg) = Inr (Some fraction)"
  then obtain ds where "calculatePinningScore env ds = Inr fraction"
    using fraction_score by blast
  then have "0 \<le> fraction \<and> fraction \<le> 1" by (rule calculatePinningScore_bounds)
  then show "0 \<le> fraction" "fraction \<le> 1" by simp_all
qed

theorem pinning_score_in_unit_interval_witness:
  "calculatePinningScore example_env
     [(js ''lodash'', Str (js ''^4.17.21'')), (js ''jest'', Str (js ''latest''))] = Inr (1 / 2) \<and>
   fst (getDependencyPinningFraction example_env (js ''https://github.com/o/r'') (js ''t'') [])
     = Inr (Some (1 / 2)) \<and>
   (0::real) \<le> 1 / 2 \<and> (1 / 2 :: real) \<le> 1"
proof -
  have h1: "calculatePinningScore example_env
     [(js ''lodash'', Str (js ''^4.17.21'')), (js ''jest'', Str (js ''latest''))] = Inr (1 / 2)"
    by (rule example_score)
  have h2: "fst (getDependencyPinningFraction example_env (js ''https://github.com/o/r'')
     (js ''t'') []) = Inr (Some (1 / 2))"
    by (simp only: example_run fst_conv)
  from pinning_score_in_unit_interval
    [of example_env "[(js ''lodash'', Str (js ''^4.17.21'')), (js ''jest'', Str (js ''latest''))]"
      "1 / 2" "js ''https://github.com/o/r''" "js ''t''" "[]" "1 / 2"]
    h1 h2
  show ?thesis by blast
qed

text \<open>
  C6: the merged map holds the entries of \<^verbatim>\<open>dependencies\<close>, \<^verbatim>\<open>devDependencies\<close>,
  \<^verbatim>\<open>peerDependencies\<close> and \<^verbatim>\<open>optionalDependencies\<close> of the manifest, a later category
  overriding an earlier one on a common key and an absent category contributing nothing;
  with \<^verbatim>\<open>dependencies = {x: "1.0.0"}\<close> and \<^verbatim>\<open>devDependencies = {x: "*"}\<close> the merged
  map has \<^verbatim>\<open>x: "*"\<close>.
\<close>

theorem allDependencies_merge_order:
  "(\<exists>merged. allDependencies env (Obj manifest) = Inr merged \<and>
      map_of merged =
        category_entries (prop_get manifest (js ''dependencies'')) ++
        category_entries (prop_get manifest (js ''devDependencies'')) ++
        category_entries (prop_get manifest (js ''peerDependencies'')) ++
        category_entries (prop_get manifest (js ''optionalDependencies''))) \<and>
   category_entries Undefined = Map.empty \<and>
   allDependencies env
     (Obj [(js ''dependencies'', Obj [(js ''x'', Str (js ''1.0.0''))]),
           (js ''devDependencies'', Obj [(js ''x'', Str (js ''*''))])])
     = Inr [(js ''x'', Str (js ''*''))]"
proof (intro conjI)
  show "\<exists>merged. allDependencies env (Obj manifest) = Inr merged \<and>
      map_of merged =
        category_entries (prop_get manifest (js ''dependencies'')) ++
        category_entries (prop_get manifest (js ''devDependencies'')) ++
        category_entries (prop_get manifest (js ''peerDependencies'')) ++
        category_entries (prop_get manifest (js ''optionalDependencies''))"
    by (simp add: allDependencies_def map_of_spread)
  show "category_entries Undefined = Map.empty" by simp
  show "allDependencies env
     (Obj [(js ''dependencies'', Obj [(js ''x'', Str (js ''1.0.0''))]),
           (js ''devDependencies'', Obj [(js ''x'', Str (js ''*''))])])
     = Inr [(js ''x'', Str (js ''*''))]"
    by (simp add: allDependencies_def prop_get_def spread_def own_keys_def is_array_index_def
        is_digit_def js_def)
qed

text \<open>
  C7: two dependency maps with the same entries, in whatever order they were inserted, get
  the same score from \<open>calculatePinningScore\<close>.
\<close>

theorem calculatePinningScore_order_independent:
  assumes "distinct (map fst m1)" and "distinct (map fst m2)" and "set m1 = set m2"
  shows "calculatePinningScore env (dependency_map m1) =
         calculatePinningScore env (dependency_map m2)"
proof -
  have "length (filter (\<lambda>(name, version). isVersionPinned version) m1)
      = length (filter (\<lambda>(name, version). isVersionPinned version) m2)"
    using assms by (rule counts_of_equal_sets)
  moreover have "length m1 = length m2"
    using counts_of_equal_sets [OF assms, of "\<lambda>e. True"] by simp
  moreover have "m1 = [] \<longleftrightarrow> m2 = []" using assms(3) by auto
  ultimately show ?thesis using assms(1,2) by (simp add: calculatePinningScore_dependency_map)
qed

theorem calculatePinningScore_order_independent_witness:
  "distinct (map fst [(js ''a'', js ''1.2.3''), (js ''b'', js ''*'')]) \<and>
   distinct (map fst [(js ''b'', js ''*''), (js ''a'', js ''1.2.3'')]) \<and>
   set [(js ''a'', js ''1.2.3''), (js ''b'', js ''*'')] =
     set [(js ''b'', js ''*''), (js ''a'', js ''1.2.3'')] \<and>
   calculatePinningScore example_env
       (dependency_map [(js ''a'', js ''1.2.3''), (js ''b'', js ''*'')]) =
     calculatePinningScore example_env
       (dependency_map [(js ''b'', js ''*''), (js ''a'', js ''1.2.3'')])"
proof -
  let ?m1 = "[(js ''a'', js ''1.2.3''), (js ''b'', js ''*'')]"
  let ?m2 = "[(js ''b'', js ''*''), (js ''a'', js ''1.2.3'')]"
  have h1: "distinct (map fst ?m1)" by (simp add: js_def)
  have h2: "distinct (map fst ?m2)" by (simp add: js_def)
  have h3: "set ?m1 = set ?m2" by auto
  from h1 h2 h3 calculatePinningScore_order_independent [OF h1 h2 h3, of example_env]
  show ?thesis by blast
qed

text \<open>
  C8: when the body of the HTTP response has no \<^verbatim>\<open>content\<close> field, the fetcher logs one
  error that names owner and repo and returns \<^verbatim>\<open>null\<close>. The error is
  \<^verbatim>\<open>package.json content not found for owner/repo.\<close> or, for a body that is
  \<^verbatim>\<open>undefined\<close> or \<^verbatim>\<open>null\<close>, \<^verbatim>\<open>Failed to fetch package.json for owner/repo:\<close> with
  the engine's \<^verbatim>\<open>TypeError\<close> text.
\<close>

theorem missing_content_returns_null:
  assumes "axios_get env (packageJsonUrl owner repo) headers = Inr data"
    and "\<not> has_field data (js ''content'')"
  shows "getDependencyPinningFractionFromPackageJson env owner repo headers lg =
     (Inr None,
      lg @ [if data = Undefined \<or> data = Null
            then LogError
                   (js ''Failed to fetch package.json for '' @ owner @ js ''/'' @ repo @ js '':'')
                   (Some (Str (type_error_message env (ReadOfNullish data (js ''content'')))))
            else LogError
                   (js ''package.json content not found for '' @ owner @ js ''/'' @ repo @ js ''.'')
                   None])"
proof -
  have "get_property env data (js ''content'') =
      (if data = Undefined \<or> data = Null
       then Inl (type_error env (ReadOfNullish data (js ''content''))) else Inr Undefined)"
  proof (cases data)
    case (Obj ps)
    with assms(2) have "map_of ps (js ''content'') = None"
      by (simp add: map_of_eq_None_iff)
    with Obj show ?thesis by (simp add: prop_get_def)
  qed simp_all
  with assms(1) show ?thesis
    by (simp add: getDependencyPinningFractionFromPackageJson_def fetch_try_def type_error_def
        failed_to_fetch_def content_not_found_def)
qed

theorem missing_content_returns_null_witness:
  "axios_get
       (fixture_env (Inr (Obj [(js ''message'', Str (js ''Not Found''))])) (Inl (ErrorObject []))
          (Inl (ErrorObject [])))
       (packageJsonUrl (js ''github'') (js ''docs'')) [] =
     Inr (Obj [(js ''message'', Str (js ''Not Found''))]) \<and>
   \<not> has_field (Obj [(js ''message'', Str (js ''Not Found''))]) (js ''content'') \<and>
   getDependencyPinningFractionFromPackageJson
       (fixture_env (Inr (Obj [(js ''message'', Str (js ''Not Found''))])) (Inl (ErrorObject []))
          (Inl (ErrorObject [])))
       (js ''github'') (js ''docs'') [] [] =
     (Inr None, [LogError (js ''package.json content not found for github/docs.'') None]) \<and>
   axios_get (fixture_env (Inr Null) (Inl (ErrorObject [])) (Inl (ErrorObject [])))
       (packageJsonUrl (js ''o'') (js ''r'')) [] = Inr Null \<and>
   \<not> has_field Null (js ''content'') \<and>
   getDependencyPinningFractionFromPackageJson
       (fixture_env (Inr Null) (Inl (ErrorObject [])) (Inl (ErrorObject [])))
       (js ''o'') (js ''r'') [] [] =
     (Inr None,
      [LogError (js ''Failed to fetch package.json for o/r:'') (Some (Str (js ''TypeError'')))])"
proof -
  let ?data = "Obj [(js ''message'', Str (js ''Not Found''))]"
  let ?env = "fixture_env (Inr ?data) (Inl (ErrorObject [])) (Inl (ErrorObject []))"
  let ?env2 = "fixture_env (Inr Null) (Inl (ErrorObject [])) (Inl (ErrorObject []))"
  have h1: "axios_get ?env (packageJsonUrl (js ''github'') (js ''docs'')) [] = Inr ?data"
    by (simp add: fixture_env_def)
  have h2: "\<not> has_field ?data (js ''content'')"
    by (simp add: js_def)
  have h3: "axios_get ?env2 (packageJsonUrl (js ''o'') (js ''r'')) [] = Inr Null"
    by (simp add: fixture_env_def)
  have h4: "\<not> has_field Null (js ''content'')" by simp
  have t: "type_error_message ?env2 (ReadOfNullish Null (js ''content'')) = js ''TypeError''"
    by (simp add: fixture_env_def)
  show ?thesis
    using h1 h2 h3 h4 missing_content_returns_null [OF h1 h2, of "[]"]
      missing_content_returns_null [OF h3 h4, of "[]"]
    by (simp add: t) (simp add: js_def)
qed




text \<open>
  C10: when the response carries a \<^verbatim>\<open>content\<close> field whose value is falsy, the empty
  string for one, the fetcher takes the missing-content path: it logs the content-not-found
  error and returns \<^verbatim>\<open>null\<close>. The presence check is a test of truthiness.
\<close>

theorem falsy_content_returns_null:
  assumes "axios_get env (packageJsonUrl owner repo) headers = Inr (Obj ps)"
    and "map_of ps (js ''content'') = Some content"
    and "\<not> truthy content"
  shows "getDependencyPinningFractionFromPackageJson env owner repo headers lg =
     (Inr None, lg @ [content_not_found owner repo])"
  using assms
  by (simp add: getDependencyPinningFractionFromPackageJson_def fetch_try_def prop_get_def)

theorem falsy_content_returns_null_witness:
  "axios_get
       (fixture_env (Inr (Obj [(js ''content'', Str [])])) (Inl (ErrorObject [])) (Inl (ErrorObject [])))
       (packageJsonUrl (js ''o'') (js ''r'')) [] = Inr (Obj [(js ''content'', Str [])]) \<and>
   map_of [(js ''content'', Str [])] (js ''content'') = Some (Str []) \<and>
   \<not> truthy (Str []) \<and>
   getDependencyPinningFractionFromPackageJson
       (fixture_env (Inr (Obj [(js ''content'', Str [])])) (Inl (ErrorObject [])) (Inl (ErrorObject [])))
       (js ''o'') (js ''r'') [] [] =
     (Inr None, [LogError (js ''package.json content not found for o/r.'') None])"
proof -
  let ?ps = "[(js ''content'', Str [])]"
  let ?env = "fixture_env (Inr (Obj ?ps)) (Inl (ErrorObject [])) (Inl (ErrorObject []))"
  have h1: "axios_get ?env (packageJsonUrl (js ''o'') (js ''r'')) [] = Inr (Obj ?ps)"
    by (simp add: fixture_env_def)
  have h2: "map_of ?ps (js ''content'') = Some (Str [])" by simp
  have h3: "\<not> truthy (Str [])" by simp
  show ?thesis using h1 h2 h3 falsy_content_returns_null [OF h1 h2 h3, of "[]"]
    by (simp add: content_not_found_def js_def)
qed

end
